theory Spec2Isabelle
  imports Main
begin

section \<open>JavaScript strings\<close>

text \<open>
  A JavaScript string is a sequence of UTF-16 code units. A code unit is modelled as a
  natural number and a string as a list of them, so that the whitespace class of the
  language (which has members beyond Latin-1) is the real one. \<open>str\<close> turns a literal
  of the theory into such a string.
\<close>

type_synonym jstr = "nat list"

definition str :: "string \<Rightarrow> jstr" where
  "str s = map of_char s"

text \<open>
  \<open>is_ws\<close> is the set shared by the regular-expression class \<^verbatim>\<open>\s\<close> and by
  \<^verbatim>\<open>String.prototype.trim\<close>: WhiteSpace and LineTerminator of ECMAScript (TAB, LF, VT, FF,
  CR, SP, NBSP, U+1680, U+2000..U+200A, LS, PS, U+202F, U+205F, U+3000, U+FEFF).
\<close>

definition is_ws :: "nat \<Rightarrow> bool" where
  "is_ws c = (c = 9 \<or> c = 10 \<or> c = 11 \<or> c = 12 \<or> c = 13 \<or> c = 32 \<or> c = 160 \<or> c = 5760
     \<or> (8192 \<le> c \<and> c \<le> 8202) \<or> c = 8232 \<or> c = 8233 \<or> c = 8239 \<or> c = 8287
     \<or> c = 12288 \<or> c = 65279)"

text \<open>LineTerminator of ECMAScript: LF, CR, LS, PS.\<close>

definition is_line_break :: "nat \<Rightarrow> bool" where
  "is_line_break c = (c = 10 \<or> c = 13 \<or> c = 8232 \<or> c = 8233)"

text \<open>\<^verbatim>\<open>s.startsWith(p)\<close>\<close>

definition startsWith :: "jstr \<Rightarrow> jstr \<Rightarrow> bool" where
  "startsWith s p = (take (length p) s = p)"

text \<open>\<^verbatim>\<open>s.includes(t)\<close>: \<open>t\<close> occurs in \<open>s\<close> at some position.\<close>

fun str_includes :: "jstr \<Rightarrow> jstr \<Rightarrow> bool" where
  "str_includes [] t = (t = [])"
| "str_includes (x # xs) t = (startsWith (x # xs) t \<or> str_includes xs t)"

text \<open>\<^verbatim>\<open>s.trim()\<close>\<close>

definition trim :: "jstr \<Rightarrow> jstr" where
  "trim s = rev (dropWhile is_ws (rev (dropWhile is_ws s)))"

section \<open>Regular expressions\<close>

text \<open>
  The patterns of the worker are kept as syntax trees and run by one backtracking
  matcher, so that each pattern below can be read against its literal in the source.
  Only the constructs the worker's patterns use are present: literal characters,
  character classes (with \<^verbatim>\<open>\s\<close> and \<^verbatim>\<open>\S\<close> as members), sequence, alternative, the greedy
  quantifiers \<^verbatim>\<open>?\<close> and \<^verbatim>\<open>*\<close> (\<^verbatim>\<open>r+\<close> is \<^verbatim>\<open>rr*\<close>), the lazy \<^verbatim>\<open>*?\<close>, and one capturing
  group. No pattern of the worker has more than one capturing group or a group under
  a quantifier, so a match carries at most one capture.
\<close>

datatype cls = CSpace | CNonSpace | CChar nat

datatype rx =
    Eps
  | Lit nat
  | Set "cls list"
  | NSet "cls list"
  | Seq rx rx
  | Alt rx rx
  | Opt rx
  | Star rx
  | LazyStar rx
  | Group rx

text \<open>
  Canonicalize of ECMAScript (without the \<^verbatim>\<open>u\<close> flag) upper-cases a code unit, and never
  maps a code unit above 127 to one below 128. Every character written in the worker's
  patterns is ASCII, and for an ASCII pattern character \<open>p\<close> the test
  \<open>canon p = canon c\<close> below agrees with the language: \<open>c\<close> is \<open>p\<close> or the same ASCII letter
  in the other case.
\<close>

definition canon :: "nat \<Rightarrow> nat" where
  "canon c = (if 97 \<le> c \<and> c \<le> 122 then c - 32 else c)"

text \<open>The first argument is the \<^verbatim>\<open>i\<close> flag.\<close>

definition chr_eq :: "bool \<Rightarrow> nat \<Rightarrow> nat \<Rightarrow> bool" where
  "chr_eq ic p c = (if ic then canon p = canon c else p = c)"

fun cls_has :: "bool \<Rightarrow> cls \<Rightarrow> nat \<Rightarrow> bool" where
  "cls_has ic CSpace c = is_ws c"
| "cls_has ic CNonSpace c = (\<not> is_ws c)"
| "cls_has ic (CChar p) c = chr_eq ic p c"

text \<open>A capture made later in a match replaces an earlier one.\<close>

fun later :: "jstr option \<Rightarrow> jstr option \<Rightarrow> jstr option" where
  "later None c = c"
| "later (Some g) c = Some g"

text \<open>
  \<open>matches ic r s\<close> lists, in the order a backtracking matcher tries them, every way
  \<open>r\<close> can match at the start of \<open>s\<close>: the text left over, and the capture. The head of
  the list is what the matcher returns. As in ECMAScript's RepeatMatcher, an iteration
  of a quantifier that consumes nothing is rejected.
\<close>

fun matches :: "bool \<Rightarrow> rx \<Rightarrow> jstr \<Rightarrow> (jstr \<times> jstr option) list" where
  "matches ic Eps s = [(s, None)]"
| "matches ic (Lit p) s =
     (case s of [] \<Rightarrow> [] | c # t \<Rightarrow> if chr_eq ic p c then [(t, None)] else [])"
| "matches ic (Set cs) s =
     (case s of [] \<Rightarrow> [] | c # t \<Rightarrow> if list_ex (\<lambda>k. cls_has ic k c) cs then [(t, None)] else [])"
| "matches ic (NSet cs) s =
     (case s of [] \<Rightarrow> [] | c # t \<Rightarrow> if list_ex (\<lambda>k. cls_has ic k c) cs then [] else [(t, None)])"
| "matches ic (Seq r1 r2) s =
     concat (map (\<lambda>(s1, c1). map (\<lambda>(s2, c2). (s2, later c2 c1)) (matches ic r2 s1))
       (matches ic r1 s))"
| "matches ic (Alt r1 r2) s = matches ic r1 s @ matches ic r2 s"
| "matches ic (Opt r) s =
     filter (\<lambda>(s1, c1). length s1 < length s) (matches ic r s) @ [(s, None)]"
| "matches ic (Star r) s =
     concat (map (\<lambda>(s1, c1). if length s1 < length s
                 then map (\<lambda>(s2, c2). (s2, later c2 c1)) (matches ic (Star r) s1) else [])
       (matches ic r s)) @ [(s, None)]"
| "matches ic (LazyStar r) s =
     (s, None) # concat (map (\<lambda>(s1, c1). if length s1 < length s
                 then map (\<lambda>(s2, c2). (s2, later c2 c1)) (matches ic (LazyStar r) s1) else [])
       (matches ic r s))"
| "matches ic (Group r) s =
     map (\<lambda>(s1, c1). (s1, Some (take (length s - length s1) s))) (matches ic r s)"

text \<open>
  \<^verbatim>\<open>s.match(r)\<close> for a pattern without the \<^verbatim>\<open>g\<close> flag: the leftmost position where the
  pattern matches; the result is the matched text (\<^verbatim>\<open>match[0]\<close>) and the capture
  (\<^verbatim>\<open>match[1]\<close>, \<open>None\<close> for \<^verbatim>\<open>undefined\<close>). \<open>None\<close> is \<^verbatim>\<open>null\<close>.
\<close>

fun exec :: "bool \<Rightarrow> rx \<Rightarrow> jstr \<Rightarrow> (jstr \<times> jstr option) option" where
  "exec ic r [] =
     (case matches ic r [] of [] \<Rightarrow> None | (s1, c) # _ \<Rightarrow> Some ([], c))"
| "exec ic r (x # xs) =
     (case matches ic r (x # xs) of
        [] \<Rightarrow> exec ic r xs
      | (s1, c) # _ \<Rightarrow> Some (take (length (x # xs) - length s1) (x # xs), c))"

text \<open>\<^verbatim>\<open>r.test(s)\<close>\<close>

definition test :: "bool \<Rightarrow> rx \<Rightarrow> jstr \<Rightarrow> bool" where
  "test ic r s = (exec ic r s \<noteq> None)"

text \<open>A run of literal characters, a sequence of patterns, \<^verbatim>\<open>r+\<close>, and the classes \<^verbatim>\<open>\s\<close> and \<^verbatim>\<open>[\s\S]\<close>.\<close>

fun lits :: "jstr \<Rightarrow> rx" where
  "lits [] = Eps"
| "lits (c # cs) = Seq (Lit c) (lits cs)"

fun seqs :: "rx list \<Rightarrow> rx" where
  "seqs [] = Eps"
| "seqs (r # rs) = Seq r (seqs rs)"

definition Plus :: "rx \<Rightarrow> rx" where
  "Plus r = Seq r (Star r)"

definition ws :: rx where
  "ws = Set [CSpace]"

definition anychar :: rx where
  "anychar = Set [CSpace, CNonSpace]"

text \<open>
  \<^verbatim>\<open>s.replace(r, rep)\<close> for a pattern with the \<^verbatim>\<open>g\<close> flag and a replacement text without
  \<^verbatim>\<open>$\<close>: every match, found left to right, is replaced; after an empty match the search
  moves on by one code unit.
\<close>

function replaceAll :: "bool \<Rightarrow> rx \<Rightarrow> jstr \<Rightarrow> jstr \<Rightarrow> jstr" where
  "replaceAll ic r rep s =
     (case matches ic r s of
        [] \<Rightarrow> (case s of [] \<Rightarrow> [] | c # t \<Rightarrow> c # replaceAll ic r rep t)
      | (s1, g) # _ \<Rightarrow>
          if length s1 < length s then rep @ replaceAll ic r rep s1
          else (case s of [] \<Rightarrow> rep | c # t \<Rightarrow> rep @ c # replaceAll ic r rep t))"
  by pat_completeness auto
termination
  by (relation "measure (\<lambda>(ic, r, rep, s). length s)") auto

section \<open>Normalisation\<close>

text \<open>
  The clean-up step of the worker:
  \<^verbatim>\<open>code.replace(/\n/g, ' ').replace(/\s+/g, ' ').trim()\<close>
\<close>

definition nl2sp :: "jstr \<Rightarrow> jstr" where
  "nl2sp s = replaceAll False (Lit 10) (str '' '') s"

definition collapse :: "jstr \<Rightarrow> jstr" where
  "collapse s = replaceAll False (Plus ws) (str '' '') s"

definition cleanUp :: "jstr \<Rightarrow> jstr" where
  "cleanUp code = trim (collapse (nl2sp code))"

section \<open>The patterns of the worker\<close>

definition prefix_js :: jstr where
  "prefix_js = str ''javascript:''"

definition sentinel :: jstr where
  "sentinel = str ''SITE_SPECIFIC_REQUEST''"

text \<open>
  The seven patterns tried on a reply that does not start with the prefix, in the
  order of the source (all with the \<^verbatim>\<open>i\<close> flag):
  \<^verbatim>\<open>/javascript:\s*\(function\(\)\s*\{[\s\S]*?\}\)\s*\(\);?/i\<close>
  \<^verbatim>\<open>/javascript:\s*\(\(\)\s*=>\s*\{[\s\S]*?\}\)\s*\(\);?/i\<close>
  \<^verbatim>\<open>/javascript:\s*void\s*\([\s\S]*?\);?/i\<close>
  \<^verbatim>\<open>/javascript:[^\s`"'\n]+/i\<close>
  \<^verbatim>\<open>/`(javascript:[^`]+)`/i\<close>
  \<^verbatim>\<open>/"(javascript:[^"]+)"/i\<close>
  \<^verbatim>\<open>/'(javascript:[^']+)'/i\<close>
  Code unit 96 is the backtick, 34 the double quote, 39 the single quote, 59 the
  semicolon, 10 the line feed.
\<close>

definition pat_iife :: rx where
  "pat_iife = seqs [lits (str ''javascript:''), Star ws, lits (str ''(function()''), Star ws,
     lits (str ''{''), LazyStar anychar, lits (str ''})''), Star ws, lits (str ''()''),
     Opt (Lit 59)]"

definition pat_arrow :: rx where
  "pat_arrow = seqs [lits (str ''javascript:''), Star ws, lits (str ''(()''), Star ws,
     lits (str ''=>''), Star ws, lits (str ''{''), LazyStar anychar, lits (str ''})''), Star ws,
     lits (str ''()''), Opt (Lit 59)]"

definition pat_void :: rx where
  "pat_void = seqs [lits (str ''javascript:''), Star ws, lits (str ''void''), Star ws,
     lits (str ''(''), LazyStar anychar, lits (str '')''), Opt (Lit 59)]"

definition pat_bare :: rx where
  "pat_bare = seqs [lits (str ''javascript:''),
     Plus (NSet [CSpace, CChar 96, CChar 34, CChar 39, CChar 10])]"

definition pat_quoted :: "nat \<Rightarrow> rx" where
  "pat_quoted q = seqs [Lit q, Group (seqs [lits (str ''javascript:''), Plus (NSet [CChar q])]),
     Lit q]"

definition patterns :: "rx list" where
  "patterns = [pat_iife, pat_arrow, pat_void, pat_bare, pat_quoted 96, pat_quoted 34,
     pat_quoted 39]"

text \<open>
  The fenced block of a single-shot reply:
  \<^verbatim>\<open>/```(?:javascript|js)?\s*([\s\S]*?)```/i\<close>
  and the fenced block of a conversational reply, whose content starts with the prefix:
  \<^verbatim>\<open>/```(?:javascript|js)?\s*(javascript:\s*[\s\S]*?)```/i\<close>
\<close>

definition pat_codeBlock :: rx where
  "pat_codeBlock = seqs [lits (str ''```''), Opt (Alt (lits (str ''javascript'')) (lits (str ''js''))),
     Star ws, Group (LazyStar anychar), lits (str ''```'')]"

definition pat_chatCode :: rx where
  "pat_chatCode = seqs [lits (str ''```''), Opt (Alt (lits (str ''javascript'')) (lits (str ''js''))),
     Star ws, Group (seqs [lits (str ''javascript:''), Star ws, LazyStar anychar]),
     lits (str ''```'')]"

section \<open>Extraction in the single-shot endpoint\<close>

text \<open>
  The loop over the patterns: every pattern is tried on the reply; the first that
  matches gives \<^verbatim>\<open>match[1] || match[0]\<close>, and the reply itself is kept when none matches.
\<close>

fun applyPatterns :: "rx list \<Rightarrow> jstr \<Rightarrow> jstr" where
  "applyPatterns [] code = code"
| "applyPatterns (p # ps) code =
     (case exec True p code of
        None \<Rightarrow> applyPatterns ps code
      | Some (m0, g) \<Rightarrow> (case g of None \<Rightarrow> m0 | Some m1 \<Rightarrow> if m1 = [] then m0 else m1))"

text \<open>The template \<^verbatim>\<open>`javascript:(function(){${extracted}})();`\<close>\<close>

definition wrap :: "jstr \<Rightarrow> jstr" where
  "wrap extracted = str ''javascript:(function(){'' @ extracted @ str ''})();''"

text \<open>
  A method called on \<^verbatim>\<open>undefined\<close> throws; the handlers catch every exception at their
  outermost level.
\<close>

datatype exn = TypeError

text \<open>
  The branch \<^verbatim>\<open>if (codeBlockMatch)\<close>: the content of the fenced block is trimmed, and
  wrapped unless it starts with the prefix.
\<close>

definition buildFromCodeBlock :: "jstr \<Rightarrow> jstr" where
  "buildFromCodeBlock m1 =
     (let extracted = trim m1 in
      if startsWith extracted prefix_js then extracted
      else wrap (collapse (nl2sp extracted)))"

text \<open>
  \<^verbatim>\<open>/generate\<close>, from the test \<^verbatim>\<open>!code.startsWith('javascript:')\<close> to the clean-up. The
  fenced block is looked for in \<open>code\<close> as the loop over the patterns left it.
\<close>

definition extractCode :: "jstr \<Rightarrow> exn + jstr" where
  "extractCode reply =
     (if \<not> startsWith reply prefix_js then
        (let code = applyPatterns patterns reply in
         if \<not> startsWith code prefix_js then
           (case exec True pat_codeBlock code of
              None \<Rightarrow> Inr (cleanUp code)
            | Some (m0, g) \<Rightarrow>
                (case g of
                   None \<Rightarrow> Inl TypeError
                 | Some m1 \<Rightarrow> Inr (cleanUp (buildFromCodeBlock m1))))
         else Inr (cleanUp code))
      else Inr (cleanUp reply))"

text \<open>
  The conversational endpoint. The first form (\<^verbatim>\<open>/chat\<close> of part_000 and part_002) takes
  a fenced block whose content starts with the prefix, and reports \<^verbatim>\<open>hasCode\<close> as
  \<^verbatim>\<open>codeMatch !== null\<close>. The second (\<^verbatim>\<open>/chat\<close> of the second file of part_001) falls back
  to any fenced block, wraps its content unless it starts with the prefix, and reports
  \<^verbatim>\<open>hasCode\<close> as \<^verbatim>\<open>extractedCode.length > 0\<close>. The result is (\<open>hasCode\<close>, \<open>code\<close>).
\<close>

definition extractChat :: "jstr \<Rightarrow> exn + (bool \<times> jstr)" where
  "extractChat reply =
     (case exec True pat_chatCode reply of
        None \<Rightarrow> Inr (False, [])
      | Some (m0, g) \<Rightarrow>
          (case g of None \<Rightarrow> Inl TypeError | Some m1 \<Rightarrow> Inr (True, cleanUp m1)))"

definition extractChatWrapping :: "jstr \<Rightarrow> exn + (bool \<times> jstr)" where
  "extractChatWrapping reply =
     (case exec True pat_chatCode reply of
        Some (m0, g) \<Rightarrow>
          (case g of
             None \<Rightarrow> Inl TypeError
           | Some m1 \<Rightarrow> (let extractedCode = cleanUp m1 in Inr (extractedCode \<noteq> [], extractedCode)))
      | None \<Rightarrow>
          (case exec True pat_codeBlock reply of
             None \<Rightarrow> Inr (False, [])
           | Some (m0, g) \<Rightarrow>
               (case g of
                  None \<Rightarrow> Inl TypeError
                | Some m1 \<Rightarrow>
                    (let code = cleanUp (trim m1);
                         extractedCode = (if \<not> startsWith code prefix_js then wrap code else code)
                     in Inr (extractedCode \<noteq> [], extractedCode)))))"

section \<open>The post-generation safety check\<close>

text \<open>
  \<^verbatim>\<open>/fetch\s*\(|XMLHttpRequest|\$\.ajax/i.test(code) &&\<close>
  \<^verbatim>\<open>/api|auth|token|session|identify|internal|private/i.test(code)\<close>
\<close>

fun alts :: "rx list \<Rightarrow> rx" where
  "alts [] = Set []"
| "alts [r] = r"
| "alts (r # rs) = Alt r (alts rs)"

definition pat_network :: rx where
  "pat_network = alts [seqs [lits (str ''fetch''), Star ws, lits (str ''('')],
     lits (str ''XMLHttpRequest''), lits (str ''$.ajax'')]"

definition pat_sensitive :: rx where
  "pat_sensitive = alts [lits (str ''api''), lits (str ''auth''), lits (str ''token''),
     lits (str ''session''), lits (str ''identify''), lits (str ''internal''),
     lits (str ''private'')]"

definition flagged :: "jstr \<Rightarrow> bool" where
  "flagged code = (test True pat_network code \<and> test True pat_sensitive code)"

section \<open>Search augmentation\<close>

text \<open>
  What the search provider can answer: the request fails, the body is not JSON or the
  formatting throws (all inside the \<^verbatim>\<open>try\<close> of \<^verbatim>\<open>searchGoogle\<close>), or the body is JSON whose
  \<^verbatim>\<open>items\<close> is absent or a list.
\<close>

record SearchItem =
  title :: jstr
  snippet :: jstr
  link :: jstr

datatype search_reply = SearchThrows | SearchJson "SearchItem list option"

function show_nat :: "nat \<Rightarrow> jstr" where
  "show_nat n = (if n < 10 then [48 + n] else show_nat (n div 10) @ [48 + n mod 10])"
  by pat_completeness auto
termination
  by (relation "measure (\<lambda>n. n)") auto

text \<open>\<^verbatim>\<open>xs.join(sep)\<close>\<close>

fun join :: "jstr \<Rightarrow> jstr list \<Rightarrow> jstr" where
  "join sep [] = []"
| "join sep [x] = x"
| "join sep (x # xs) = x @ sep @ join sep xs"

text \<open>\<^verbatim>\<open>`${i + 1}. ${item.title}\n   ${item.snippet}\n   URL: ${item.link}`\<close>\<close>

definition formatItem :: "nat \<Rightarrow> SearchItem \<Rightarrow> jstr" where
  "formatItem i item = show_nat (i + 1) @ str ''. '' @ title item @ str ''\<newline>   '' @ snippet item
     @ str ''\<newline>   URL: '' @ link item"

definition searchGoogle :: "search_reply \<Rightarrow> jstr" where
  "searchGoogle r =
     (case r of
        SearchThrows \<Rightarrow> str ''Search failed - proceeding without web context.''
      | SearchJson None \<Rightarrow> str ''No relevant search results found.''
      | SearchJson (Some items) \<Rightarrow>
          if items = [] then str ''No relevant search results found.''
          else join (str ''\<newline>\<newline>'') (map (\<lambda>(i, item). formatItem i item) (enumerate 0 items)))"

text \<open>
  The two trigger patterns of the variants:
  \<^verbatim>\<open>/how to|what is|find|search|look up|api|documentation|example|tutorial/i\<close>
  \<^verbatim>\<open>/search for|look up|documentation|reference|find info|api docs/i\<close>
\<close>

definition trigger_broad :: rx where
  "trigger_broad = alts [lits (str ''how to''), lits (str ''what is''), lits (str ''find''),
     lits (str ''search''), lits (str ''look up''), lits (str ''api''), lits (str ''documentation''),
     lits (str ''example''), lits (str ''tutorial'')]"

definition trigger_explicit :: rx where
  "trigger_explicit = alts [lits (str ''search for''), lits (str ''look up''),
     lits (str ''documentation''), lits (str ''reference''), lits (str ''find info''),
     lits (str ''api docs'')]"

section \<open>The request handlers\<close>

text \<open>
  The worker exists in several near-identical files. A variant records where they
  differ: the search trigger, whether \<^verbatim>\<open>/generate\<close> runs the safety check, and which form
  of extraction \<^verbatim>\<open>/chat\<close> uses. The first file of part_001 has the \<^verbatim>\<open>/generate\<close> of
  part_000 and no \<^verbatim>\<open>/chat\<close>; \<open>handle_generate\<close> below is the \<^verbatim>\<open>/generate\<close> of these four files.
  The second file of part_000 and part_003 are two earlier \<^verbatim>\<open>/generate\<close> handlers, without
  the loop over the patterns, the fenced block and the clean-up; they follow as
  \<open>handle_generate_first\<close> and \<open>handle_generate_part_003\<close>.
\<close>

record variant =
  trigger :: rx
  audited :: bool
  chatWraps :: bool

definition part_000 :: variant where
  "part_000 = \<lparr>trigger = trigger_broad, audited = False, chatWraps = False\<rparr>"

definition part_001_second :: variant where
  "part_001_second = \<lparr>trigger = trigger_explicit, audited = True, chatWraps = True\<rparr>"

definition part_002 :: variant where
  "part_002 = \<lparr>trigger = trigger_explicit, audited = True, chatWraps = False\<rparr>"

text \<open>
  The outside world of one request: the search provider's answer, and the completion
  provider's answers to the primary call and to the title call. A completion either
  fails at the network level, or returns a status (\<^verbatim>\<open>response.ok\<close>) and a body. The body is
  not JSON; or it is the JSON value \<^verbatim>\<open>null\<close>, where reading a member of it throws; or it is JSON
  with or without a truthy \<^verbatim>\<open>error\<close> member, and its \<^verbatim>\<open>choices[0].message.content\<close> is a
  value other than a string, \<^verbatim>\<open>null\<close> and \<^verbatim>\<open>undefined\<close>, where the call of \<^verbatim>\<open>trim\<close> throws
  (\<open>JsonNoText\<close>), or is a string, or is absent (\<open>Json\<close>).
\<close>

datatype payload = NotJson | JsonNull | JsonNoText bool | Json bool "jstr option"

datatype completion = FetchThrows | Completed bool payload

record world =
  search :: search_reply
  primary :: completion
  titling :: completion

datatype role = User | Assistant

record ChatMessage =
  role :: role
  content :: jstr

text \<open>
  The network calls a handler makes, in order. The fixed text of the system prompts is
  not represented; a completion call is recorded with the search context spliced into
  the prompt and the turns sent.
\<close>

datatype net_call =
    GoogleSearch jstr
  | ChatCompletion jstr "ChatMessage list"
  | GenerateCompletion jstr "jstr option"
  | TitleCompletion jstr

text \<open>
  The responses: an error body with its HTTP status, the body of \<^verbatim>\<open>/chat\<close>
  (\<^verbatim>\<open>reply, hasCode, code, title\<close>) and the body of \<^verbatim>\<open>/generate\<close>
  (\<^verbatim>\<open>code, siteSpecific, message\<close>).
\<close>

datatype response =
    Failure nat jstr
  | ChatReply jstr bool jstr "jstr option"
  | Generated jstr bool "jstr option"

definition refusalMessage :: jstr where
  "refusalMessage = str (''This request requires knowledge of a specific website's internal structure, APIs, or authentication systems that aren't publicly accessible. Bookmarklets can only interact with visible page elements and public web standards.''
     @ ''\<newline>\<newline>Want this bookmarklet? Submit a feature request and our team will research and build it if possible!'')"

definition auditMessage :: jstr where
  "auditMessage = str (''This bookmarklet would need to access internal APIs or authentication systems. Bookmarklets can only work with visible page content and public web standards.''
     @ ''\<newline>\<newline>Need this functionality? Contact seltrahelpcenter@gmail.com and we'll see if it's possible!'')"

text \<open>
  \<^verbatim>\<open>generateChatTitle\<close>: any failure gives the default label;
  \<^verbatim>\<open>content?.trim().replace(/['"]/g, '') || 'New Chat'\<close>
\<close>

definition generateChatTitle :: "completion \<Rightarrow> jstr" where
  "generateChatTitle c =
     (case c of
        FetchThrows \<Rightarrow> str ''New Chat''
      | Completed ok NotJson \<Rightarrow> str ''New Chat''
      | Completed ok JsonNull \<Rightarrow> str ''New Chat''
      | Completed ok (JsonNoText err) \<Rightarrow> str ''New Chat''
      | Completed ok (Json err None) \<Rightarrow> str ''New Chat''
      | Completed ok (Json err (Some t)) \<Rightarrow>
          (let t1 = replaceAll False (Set [CChar 39, CChar 34]) [] (trim t)
           in if t1 = [] then str ''New Chat'' else t1))"

definition roleName :: "role \<Rightarrow> jstr" where
  "roleName r = (case r of User \<Rightarrow> str ''user'' | Assistant \<Rightarrow> str ''assistant'')"

text \<open>
  \<^verbatim>\<open>messages.map(m => `${m.role}: ${m.content}`).slice(0, 4).join('\n')\<close>
\<close>

definition titlePrompt :: "ChatMessage list \<Rightarrow> jstr" where
  "titlePrompt ms = join (str ''\<newline>'') (take 4 (map (\<lambda>m. roleName (role m) @ str '': '' @ content m) ms))"

text \<open>
  The body of a \<^verbatim>\<open>/chat\<close> request; \<open>None\<close> for the whole request is a body that
  \<^verbatim>\<open>request.json()\<close> rejects or the JSON value \<^verbatim>\<open>null\<close>, which the destructuring rejects;
  \<open>None\<close> for \<open>messages\<close> is an absent member.
\<close>

record chat_request =
  messages :: "ChatMessage list option"
  generateTitle :: bool

text \<open>
  \<^verbatim>\<open>[...messages].reverse().find(m => m.role === 'user')?.content || ''\<close>
\<close>

definition lastUserMessage :: "ChatMessage list \<Rightarrow> jstr" where
  "lastUserMessage ms =
     (case find (\<lambda>m. role m = User) (rev ms) of None \<Rightarrow> [] | Some m \<Rightarrow> content m)"

definition handle_chat :: "variant \<Rightarrow> world \<Rightarrow> chat_request option \<Rightarrow> response \<times> net_call list" where
  "handle_chat v w request =
     (case request of
        None \<Rightarrow> (Failure 500 (str ''Failed to process chat''), [])
      | Some rq \<Rightarrow>
          (case messages rq of
             None \<Rightarrow> (Failure 400 (str ''No messages provided''), [])
           | Some ms \<Rightarrow>
               if ms = [] then (Failure 400 (str ''No messages provided''), [])
               else
                 (let needsSearch = test True (trigger v) (lastUserMessage ms);
                      searchCalls =
                        (if needsSearch
                         then [GoogleSearch (str ''javascript bookmarklet '' @ lastUserMessage ms)]
                         else []);
                      searchContext = (if needsSearch then searchGoogle (search w) else []);
                      limitedMessages = drop (length ms - 100) ms;
                      calls = searchCalls @ [ChatCompletion searchContext limitedMessages]
                  in case primary w of
                       FetchThrows \<Rightarrow> (Failure 500 (str ''Failed to process chat''), calls)
                     | Completed ok NotJson \<Rightarrow> (Failure 500 (str ''Invalid API response''), calls)
                     | Completed ok JsonNull \<Rightarrow> (Failure 500 (str ''Failed to process chat''), calls)
                     | Completed ok (JsonNoText err) \<Rightarrow>
                         if err \<or> \<not> ok then (Failure 500 (str ''API Error''), calls)
                         else (Failure 500 (str ''Failed to process chat''), calls)
                     | Completed ok (Json err c) \<Rightarrow>
                         if err \<or> \<not> ok then (Failure 500 (str ''API Error''), calls)
                         else
                           (let reply = (case c of None \<Rightarrow> [] | Some t \<Rightarrow> trim t)
                            in case (if chatWraps v then extractChatWrapping reply else extractChat reply) of
                                 Inl e \<Rightarrow> (Failure 500 (str ''Failed to process chat''), calls)
                               | Inr (hasCode, code) \<Rightarrow>
                                   if generateTitle rq
                                   then (ChatReply reply hasCode code (Some (generateChatTitle (titling w))),
                                         calls @ [TitleCompletion
                                           (titlePrompt (ms @ [\<lparr>role = Assistant, content = reply\<rparr>]))])
                                   else (ChatReply reply hasCode code None, calls)))))"

text \<open>
  The body of a \<^verbatim>\<open>/generate\<close> request. An absent \<^verbatim>\<open>prompt\<close> is \<^verbatim>\<open>undefined\<close>, which the
  pattern test and the template literal turn into the text \<^verbatim>\<open>undefined\<close>. The whole
  request is \<open>None\<close> when \<^verbatim>\<open>request.json()\<close> rejects the body or gives \<^verbatim>\<open>null\<close>, which the
  destructuring rejects.
\<close>

record generate_request =
  prompt :: "jstr option"

definition toText :: "jstr option \<Rightarrow> jstr" where
  "toText p = (case p of None \<Rightarrow> str ''undefined'' | Some t \<Rightarrow> t)"

definition handle_generate :: "variant \<Rightarrow> world \<Rightarrow> generate_request option \<Rightarrow> response \<times> net_call list" where
  "handle_generate v w request =
     (case request of
        None \<Rightarrow> (Failure 500 (str ''Failed to generate''), [])
      | Some rq \<Rightarrow>
          (let needsSearch = test True (trigger v) (toText (prompt rq));
               searchCalls =
                 (if needsSearch then [GoogleSearch (str ''javascript bookmarklet '' @ toText (prompt rq))]
                  else []);
               searchContext = (if needsSearch then searchGoogle (search w) else []);
               calls = searchCalls @ [GenerateCompletion searchContext (prompt rq)]
           in case primary w of
                FetchThrows \<Rightarrow> (Failure 500 (str ''Failed to generate''), calls)
              | Completed ok NotJson \<Rightarrow> (Failure 500 (str ''Invalid API response''), calls)
              | Completed ok JsonNull \<Rightarrow> (Failure 500 (str ''Failed to generate''), calls)
              | Completed ok (JsonNoText err) \<Rightarrow>
                  if err \<or> \<not> ok then (Failure 500 (str ''API Error''), calls)
                  else (Failure 500 (str ''Failed to generate''), calls)
              | Completed ok (Json err c) \<Rightarrow>
                  if err \<or> \<not> ok then (Failure 500 (str ''API Error''), calls)
                  else
                    (let code = (case c of None \<Rightarrow> [] | Some t \<Rightarrow> trim t)
                     in if code = sentinel \<or> str_includes code sentinel
                        then (Generated [] True (Some refusalMessage), calls)
                        else
                          (case extractCode code of
                             Inl e \<Rightarrow> (Failure 500 (str ''Failed to generate''), calls)
                           | Inr cleaned \<Rightarrow>
                               if audited v \<and> flagged cleaned
                               then (Generated [] True (Some auditMessage), calls)
                               else (Generated cleaned False None, calls)))))"

section \<open>The two earlier single-shot handlers\<close>

text \<open>
  The second file of part_000: no search; the body is read with \<^verbatim>\<open>response.json()\<close>
  inside the one \<^verbatim>\<open>try\<close>, so a body that is not JSON answers 500 like every other throw;
  neither the status nor an \<^verbatim>\<open>error\<close> member is looked at; after the sentinel test the
  trimmed reply is returned as the code.
\<close>

definition handle_generate_first :: "world \<Rightarrow> generate_request option \<Rightarrow> response \<times> net_call list" where
  "handle_generate_first w request =
     (case request of
        None \<Rightarrow> (Failure 500 (str ''Failed to generate''), [])
      | Some rq \<Rightarrow>
          (let calls = [GenerateCompletion [] (prompt rq)]
           in case primary w of
                FetchThrows \<Rightarrow> (Failure 500 (str ''Failed to generate''), calls)
              | Completed ok NotJson \<Rightarrow> (Failure 500 (str ''Failed to generate''), calls)
              | Completed ok JsonNull \<Rightarrow> (Failure 500 (str ''Failed to generate''), calls)
              | Completed ok (JsonNoText err) \<Rightarrow> (Failure 500 (str ''Failed to generate''), calls)
              | Completed ok (Json err c) \<Rightarrow>
                  (let code = (case c of None \<Rightarrow> [] | Some t \<Rightarrow> trim t)
                   in if code = sentinel \<or> str_includes code sentinel
                      then (Generated [] True (Some refusalMessage), calls)
                      else (Generated code False None, calls))))"

text \<open>
  part_003: the search with the broad trigger, the same reading of the body, the
  sentinel test, and for a reply that does not start with the prefix
  \<^verbatim>\<open>code.match(/javascript:\s*\(function\(\)\{[\s\S]*\}\)\(\);?/i) ||\<close>
  \<^verbatim>\<open>code.match(/javascript:[\s\S]+/i)\<close>
  whose \<^verbatim>\<open>match[0]\<close> becomes the code. There is no clean-up.
\<close>

definition pat_iife_greedy :: rx where
  "pat_iife_greedy = seqs [lits (str ''javascript:''), Star ws, lits (str ''(function(){''),
     Star anychar, lits (str ''})()''), Opt (Lit 59)]"

definition pat_rest :: rx where
  "pat_rest = seqs [lits (str ''javascript:''), Plus anychar]"

definition extract_part_003 :: "jstr \<Rightarrow> jstr" where
  "extract_part_003 code =
     (if \<not> startsWith code prefix_js then
        (case exec True pat_iife_greedy code of
           Some (m0, g) \<Rightarrow> m0
         | None \<Rightarrow> (case exec True pat_rest code of Some (m0, g) \<Rightarrow> m0 | None \<Rightarrow> code))
      else code)"

definition handle_generate_part_003 :: "world \<Rightarrow> generate_request option \<Rightarrow> response \<times> net_call list" where
  "handle_generate_part_003 w request =
     (case request of
        None \<Rightarrow> (Failure 500 (str ''Failed to generate''), [])
      | Some rq \<Rightarrow>
          (let needsSearch = test True trigger_broad (toText (prompt rq));
               searchCalls =
                 (if needsSearch then [GoogleSearch (str ''javascript bookmarklet '' @ toText (prompt rq))]
                  else []);
               searchContext = (if needsSearch then searchGoogle (search w) else []);
               calls = searchCalls @ [GenerateCompletion searchContext (prompt rq)]
           in case primary w of
                FetchThrows \<Rightarrow> (Failure 500 (str ''Failed to generate''), calls)
              | Completed ok NotJson \<Rightarrow> (Failure 500 (str ''Failed to generate''), calls)
              | Completed ok JsonNull \<Rightarrow> (Failure 500 (str ''Failed to generate''), calls)
              | Completed ok (JsonNoText err) \<Rightarrow> (Failure 500 (str ''Failed to generate''), calls)
              | Completed ok (Json err c) \<Rightarrow>
                  (let code = (case c of None \<Rightarrow> [] | Some t \<Rightarrow> trim t)
                   in if code = sentinel \<or> str_includes code sentinel
                      then (Generated [] True (Some refusalMessage), calls)
                      else (Generated (extract_part_003 code) False None, calls))))"

section \<open>Canonical form\<close>

text \<open>
  \<open>squeeze\<close> states directly what \<^verbatim>\<open>replace(/\s+/g, ' ')\<close> computes: every maximal run
  of whitespace becomes one space. A text is canonical when every whitespace character
  in it is a space, no two whitespace characters are adjacent, and it neither starts
  nor ends with one; it is a single line when it has no line terminator.
\<close>

function squeeze :: "jstr \<Rightarrow> jstr" where
  "squeeze [] = []"
| "squeeze (c # t) = (if is_ws c then 32 # squeeze (dropWhile is_ws t) else c # squeeze t)"
  by pat_completeness auto
termination
  by (relation "measure length") (auto simp: length_dropWhile_le less_Suc_eq_le)

fun no_ws_run :: "jstr \<Rightarrow> bool" where
  "no_ws_run [] = True"
| "no_ws_run [c] = True"
| "no_ws_run (a # b # t) = (\<not> (is_ws a \<and> is_ws b) \<and> no_ws_run (b # t))"

definition canonical :: "jstr \<Rightarrow> bool" where
  "canonical s = (list_all (\<lambda>c. is_ws c \<longrightarrow> c = 32) s \<and> no_ws_run s \<and>
     (s \<noteq> [] \<longrightarrow> \<not> is_ws (hd s) \<and> \<not> is_ws (last s)))"

text \<open>\<open>dropEnd\<close> is the second half of \<^verbatim>\<open>trim\<close>: the whitespace at the end removed.\<close>

definition dropEnd :: "jstr \<Rightarrow> jstr" where
  "dropEnd x = rev (dropWhile is_ws (rev x))"

definition single_line :: "jstr \<Rightarrow> bool" where
  "single_line s = list_all (\<lambda>c. \<not> is_line_break c) s"

section \<open>Lexical closure\<close>

text \<open>
  Whether a script text is closed is decided by reading it the way a JavaScript lexer
  separates code from comments and string literals: a bracket counts only in code.
  \<open>step\<close> reads one character. In code it keeps the stack of the closing brackets still
  expected. A line comment runs to the next line terminator, a block comment to the
  next \<^verbatim>\<open>*/\<close>, a string literal to its closing quote, a backslash hiding the next
  character; a line feed or carriage return inside a string literal breaks the text.
  Constructs whose reading depends on the grammar have no verdict (\<open>Unknown\<close>): a
  template literal, a slash that does not start a comment (division or a regular
  expression literal), a backslash before a carriage return, and the HTML-like
  comment markers \<^verbatim>\<open><!--\<close> and \<^verbatim>\<open>-->\<close>. The modes \<open>Lt\<close>, \<open>LtBang\<close>, \<open>LtBangDash\<close>, \<open>Dash\<close> and
  \<open>DashDash\<close> are code in which the start of such a marker has been read.
\<close>

datatype mode = Code | Lt | LtBang | LtBangDash | Dash | DashDash | Slash
  | SQ | SQEsc | DQ | DQEsc | LineC | BlockC | BlockStar

datatype lexst = Run mode "nat list" | Broken | Unknown

definition code_step :: "nat list \<Rightarrow> nat \<Rightarrow> lexst" where
  "code_step st c =
     (if c = 47 then Run Slash st
      else if c = 39 then Run SQ st
      else if c = 34 then Run DQ st
      else if c = 96 then Unknown
      else if c = 60 then Run Lt st
      else if c = 45 then Run Dash st
      else if c = 40 then Run Code (41 # st)
      else if c = 91 then Run Code (93 # st)
      else if c = 123 then Run Code (125 # st)
      else if c = 41 \<or> c = 93 \<or> c = 125
           then (case st of [] \<Rightarrow> Broken | d # st' \<Rightarrow> if d = c then Run Code st' else Broken)
      else Run Code st)"

fun step :: "lexst \<Rightarrow> nat \<Rightarrow> lexst" where
  "step Broken c = Broken"
| "step Unknown c = Unknown"
| "step (Run Code st) c = code_step st c"
| "step (Run Lt st) c = (if c = 33 then Run LtBang st else code_step st c)"
| "step (Run LtBang st) c = (if c = 45 then Run LtBangDash st else code_step st c)"
| "step (Run LtBangDash st) c = (if c = 45 then Unknown else code_step st c)"
| "step (Run Dash st) c = (if c = 45 then Run DashDash st else code_step st c)"
| "step (Run DashDash st) c =
     (if c = 62 then Unknown else if c = 45 then Run DashDash st else code_step st c)"
| "step (Run Slash st) c =
     (if c = 47 then Run LineC st else if c = 42 then Run BlockC st else Unknown)"
| "step (Run SQ st) c =
     (if c = 39 then Run Code st else if c = 92 then Run SQEsc st
      else if c = 10 \<or> c = 13 then Broken else Run SQ st)"
| "step (Run SQEsc st) c = (if c = 13 then Unknown else Run SQ st)"
| "step (Run DQ st) c =
     (if c = 34 then Run Code st else if c = 92 then Run DQEsc st
      else if c = 10 \<or> c = 13 then Broken else Run DQ st)"
| "step (Run DQEsc st) c = (if c = 13 then Unknown else Run DQ st)"
| "step (Run LineC st) c = (if is_line_break c then Run Code st else Run LineC st)"
| "step (Run BlockC st) c = (if c = 42 then Run BlockStar st else Run BlockC st)"
| "step (Run BlockStar st) c =
     (if c = 47 then Run Code st else if c = 42 then Run BlockStar st else Run BlockC st)"

definition lex :: "jstr \<Rightarrow> lexst" where
  "lex s = foldl step (Run Code []) s"

text \<open>
  The verdict on a whole text: closed when the reading ends in code or in a line
  comment with no bracket open; not closed when a bracket, a string literal or a block
  comment is left open, when a bracket closes the wrong kind or none, or when a string
  literal is broken by a line break; no verdict otherwise.
\<close>

definition in_code :: "mode \<Rightarrow> bool" where
  "in_code m = (m = Code \<or> m = Lt \<or> m = LtBang \<or> m = LtBangDash \<or> m = Dash \<or> m = DashDash)"

definition closed :: "jstr \<Rightarrow> bool option" where
  "closed s =
     (case lex s of
        Unknown \<Rightarrow> None
      | Broken \<Rightarrow> Some False
      | Run m st \<Rightarrow>
          if m = Slash then None
          else if in_code m \<or> m = LineC then Some (st = [])
          else Some False)"

text \<open>
  A text is read plainly when the reading, at every character and at the end, is in
  none of these states: broken, without verdict, inside a line comment. \<open>settled\<close> are
  the modes that whitespace leaves as they are.
\<close>

definition calm :: "lexst \<Rightarrow> bool" where
  "calm \<sigma> = (case \<sigma> of Run m st \<Rightarrow> m \<noteq> LineC | Broken \<Rightarrow> False | Unknown \<Rightarrow> False)"

fun plain_from :: "lexst \<Rightarrow> jstr \<Rightarrow> bool" where
  "plain_from \<sigma> [] = calm \<sigma>"
| "plain_from \<sigma> (c # t) = (calm \<sigma> \<and> plain_from (step \<sigma> c) t)"

definition plain :: "jstr \<Rightarrow> bool" where
  "plain s = plain_from (Run Code []) s"

definition in_line_comment :: "jstr \<Rightarrow> bool" where
  "in_line_comment s = (case lex s of Run m st \<Rightarrow> m = LineC | Broken \<Rightarrow> False | Unknown \<Rightarrow> False)"

definition settled :: "mode \<Rightarrow> bool" where
  "settled m = (m = Code \<or> m = SQ \<or> m = DQ \<or> m = BlockC)"

section \<open>The safety check in the words of the specification\<close>

text \<open>
  The specification describes the check without patterns: the code contains a
  network-call construct (a fetch-style call, that is the word \<^verbatim>\<open>fetch\<close>, optional
  whitespace and an opening parenthesis; or \<^verbatim>\<open>XMLHttpRequest\<close>; or \<^verbatim>\<open>$.ajax\<close>) and it
  contains one of seven keywords, letter case ignored. These definitions follow those
  words, by plain search in the text; they are compared with \<open>flagged\<close> below.
  \<open>occurs P s\<close>: \<open>P\<close> holds at some position of \<open>s\<close>.
\<close>

fun occurs :: "(jstr \<Rightarrow> bool) \<Rightarrow> jstr \<Rightarrow> bool" where
  "occurs P [] = P []"
| "occurs P (x # xs) = (P (x # xs) \<or> occurs P xs)"

definition starts_ci :: "jstr \<Rightarrow> jstr \<Rightarrow> bool" where
  "starts_ci w s = (length w \<le> length s \<and> map canon (take (length w) s) = map canon w)"

definition contains_ci :: "jstr \<Rightarrow> jstr \<Rightarrow> bool" where
  "contains_ci w s = occurs (starts_ci w) s"

definition fetch_call_at :: "jstr \<Rightarrow> bool" where
  "fetch_call_at s = (starts_ci (str ''fetch'') s \<and> startsWith (dropWhile is_ws (drop 5 s)) (str ''(''))"

definition spec_network_call :: "jstr \<Rightarrow> bool" where
  "spec_network_call code = (occurs fetch_call_at code \<or> contains_ci (str ''XMLHttpRequest'') code
     \<or> contains_ci (str ''$.ajax'') code)"

definition spec_sensitive_keyword :: "jstr \<Rightarrow> bool" where
  "spec_sensitive_keyword code = list_ex (\<lambda>w. contains_ci (str w) code)
     [''api'', ''auth'', ''token'', ''session'', ''identify'', ''internal'', ''private'']"

section \<open>Evaluating the matcher\<close>

text \<open>
  The equations of \<open>matches\<close> bind the intermediate results under abstractions. For
  running a pattern on a concrete text they are restated with first-order helpers,
  each with its two list equations.
\<close>

definition capl :: "jstr option \<Rightarrow> (jstr \<times> jstr option) list \<Rightarrow> (jstr \<times> jstr option) list" where
  "capl c1 xs = map (\<lambda>(s2, c2). (s2, later c2 c1)) xs"

definition seqk :: "bool \<Rightarrow> rx \<Rightarrow> (jstr \<times> jstr option) list \<Rightarrow> (jstr \<times> jstr option) list" where
  "seqk ic r xs = concat (map (\<lambda>(s1, c1). capl c1 (matches ic r s1)) xs)"

definition stark :: "bool \<Rightarrow> rx \<Rightarrow> nat \<Rightarrow> (jstr \<times> jstr option) list \<Rightarrow> (jstr \<times> jstr option) list" where
  "stark ic r n xs =
     concat (map (\<lambda>(s1, c1). if length s1 < n then capl c1 (matches ic r s1) else []) xs)"

definition optk :: "nat \<Rightarrow> (jstr \<times> jstr option) list \<Rightarrow> (jstr \<times> jstr option) list" where
  "optk n xs = filter (\<lambda>(s1, c1). length s1 < n) xs"

definition grpk :: "jstr \<Rightarrow> (jstr \<times> jstr option) list \<Rightarrow> (jstr \<times> jstr option) list" where
  "grpk s xs = map (\<lambda>(s1, c1). (s1, Some (take (length s - length s1) s))) xs"

lemma capl_simps:
  "capl c1 [] = []"
  "capl c1 ((s2, c2) # xs) = (s2, later c2 c1) # capl c1 xs"
  by (simp_all add: capl_def)

lemma seqk_simps:
  "seqk ic r [] = []"
  "seqk ic r ((s1, c1) # xs) = capl c1 (matches ic r s1) @ seqk ic r xs"
  by (simp_all add: seqk_def)

lemma stark_simps:
  "stark ic r n [] = []"
  "stark ic r n ((s1, c1) # xs) =
     (if length s1 < n then capl c1 (matches ic r s1) else []) @ stark ic r n xs"
  by (simp_all add: stark_def)

lemma optk_simps:
  "optk n [] = []"
  "optk n ((s1, c1) # xs) = (if length s1 < n then (s1, c1) # optk n xs else optk n xs)"
  by (simp_all add: optk_def)

lemma grpk_simps:
  "grpk s [] = []"
  "grpk s ((s1, c1) # xs) = (s1, Some (take (length s - length s1) s)) # grpk s xs"
  by (simp_all add: grpk_def)

lemma matches_eqs:
  "matches ic (Seq r1 r2) s = seqk ic r2 (matches ic r1 s)"
  "matches ic (Opt r) s = optk (length s) (matches ic r s) @ [(s, None)]"
  "matches ic (Star r) s = stark ic (Star r) (length s) (matches ic r s) @ [(s, None)]"
  "matches ic (LazyStar r) s = (s, None) # stark ic (LazyStar r) (length s) (matches ic r s)"
  "matches ic (Group r) s = grpk s (matches ic r s)"
  unfolding seqk_def capl_def optk_def stark_def grpk_def
  by (subst matches.simps, rule refl)+

declare matches.simps(5,7,8,9,10) [simp del]
declare replaceAll.simps [simp del]

lemmas run_rx = matches_eqs capl_simps seqk_simps stark_simps optk_simps grpk_simps
  replaceAll.simps str_def chr_eq_def canon_def is_ws_def Plus_def ws_def anychar_def

section \<open>Normalisation: what the three steps compute\<close>

lemma nl2sp_map: "nl2sp s = map (\<lambda>c. if c = 10 then 32 else c) s"
proof (induction s)
  case Nil
  show ?case by (simp add: nl2sp_def replaceAll.simps)
next
  case (Cons c t)
  then show ?case
    by (simp add: nl2sp_def replaceAll.simps[of False "Lit 10" _ "c # t"] chr_eq_def str_def)
qed

lemma matches_ws:
  "matches ic ws s = (case s of [] \<Rightarrow> [] | c # t \<Rightarrow> if is_ws c then [(t, None)] else [])"
  by (simp add: ws_def split: list.splits)

lemma star_ws_hd: "\<exists>rest. matches ic (Star ws) s = (dropWhile is_ws s, None) # rest"
proof (induction s)
  case Nil
  show ?case by (simp add: matches_eqs matches_ws stark_simps)
next
  case (Cons c t)
  then obtain rest where r: "matches ic (Star ws) t = (dropWhile is_ws t, None) # rest" by blast
  show ?case
    by (simp add: matches_eqs(3)[of ic ws "c # t"] matches_ws stark_simps capl_simps r)
qed

lemma plus_ws:
  "matches ic (Plus ws) s =
     (case s of [] \<Rightarrow> [] | c # t \<Rightarrow> if is_ws c then capl None (matches ic (Star ws) t) else [])"
  by (simp add: Plus_def matches_eqs(1) matches_ws seqk_simps split: list.splits)

lemma collapse_squeeze: "collapse s = squeeze s"
proof (induction s rule: squeeze.induct)
  case 1
  show ?case by (simp add: collapse_def replaceAll.simps plus_ws)
next
  case (2 c t)
  obtain rest where r: "matches False (Star ws) t = (dropWhile is_ws t, None) # rest"
    using star_ws_hd by blast
  have le: "length (dropWhile is_ws t) < Suc (length t)"
    by (simp add: length_dropWhile_le less_Suc_eq_le)
  show ?case
  proof (cases "is_ws c")
    case True
    with 2 le show ?thesis
      by (simp add: collapse_def replaceAll.simps[of False "Plus ws" _ "c # t"] plus_ws r capl_simps str_def)
  next
    case False
    with 2 show ?thesis
      by (simp add: collapse_def replaceAll.simps[of False "Plus ws" _ "c # t"] plus_ws)
  qed
qed

lemma is_ws_32 [simp]: "is_ws 32" by (simp add: is_ws_def)
lemma is_ws_10 [simp]: "is_ws 10" by (simp add: is_ws_def)

lemma squeeze_ws_space: "list_all (\<lambda>c. is_ws c \<longrightarrow> c = 32) (squeeze s)"
  by (induction s rule: squeeze.induct) auto

lemma squeeze_Nil_iff [simp]: "squeeze s = [] \<longleftrightarrow> s = []"
  by (cases s) auto

lemma hd_squeeze_ws: "s \<noteq> [] \<Longrightarrow> is_ws (hd (squeeze s)) = is_ws (hd s)"
  by (cases s) auto

lemma no_ws_run_Cons: "no_ws_run (a # t) = ((t \<noteq> [] \<longrightarrow> \<not> (is_ws a \<and> is_ws (hd t))) \<and> no_ws_run t)"
  by (cases t) auto

lemma squeeze_no_ws_run: "no_ws_run (squeeze s)"
proof (induction s rule: squeeze.induct)
  case 1
  show ?case by simp
next
  case (2 c t)
  show ?case
  proof (cases "is_ws c")
    case True
    have "dropWhile is_ws t \<noteq> [] \<Longrightarrow> \<not> is_ws (hd (dropWhile is_ws t))"
      by (rule hd_dropWhile)
    with True 2 show ?thesis
      by (simp add: no_ws_run_Cons hd_squeeze_ws)
  next
    case False
    with 2 show ?thesis by (simp add: no_ws_run_Cons)
  qed
qed

lemma squeeze_id:
  "list_all (\<lambda>c. is_ws c \<longrightarrow> c = 32) s \<Longrightarrow> no_ws_run s \<Longrightarrow> squeeze s = s"
proof (induction s rule: squeeze.induct)
  case 1
  show ?case by simp
next
  case (2 c t)
  show ?case
  proof (cases "is_ws c")
    case True
    with "2.prems" have d: "dropWhile is_ws t = t"
      by (cases t) (auto simp: no_ws_run_Cons)
    with True 2 show ?thesis by (simp add: no_ws_run_Cons)
  next
    case False
    with 2 show ?thesis by (simp add: no_ws_run_Cons)
  qed
qed

lemma rev_split: "x = rev (dropWhile P (rev x)) @ rev (takeWhile P (rev x))"
proof -
  have "rev (rev x) = rev (takeWhile P (rev x) @ dropWhile P (rev x))"
    by (simp only: takeWhile_dropWhile_id)
  then show ?thesis by (simp only: rev_rev_ident rev_append)
qed

lemma trim_decomp: "\<exists>a b. s = a @ trim s @ b \<and> list_all is_ws a \<and> list_all is_ws b"
proof -
  let ?x = "dropWhile is_ws s"
  have 1: "s = takeWhile is_ws s @ ?x" by simp
  have 2: "?x = trim s @ rev (takeWhile is_ws (rev ?x))"
    unfolding trim_def by (rule rev_split)
  have a: "list_all is_ws (takeWhile is_ws s)"
    by (simp add: list_all_iff) (meson set_takeWhileD)
  have b: "list_all is_ws (rev (takeWhile is_ws (rev ?x)))"
    by (simp add: list_all_iff) (meson set_takeWhileD)
  from 1 2 have "s = takeWhile is_ws s @ trim s @ rev (takeWhile is_ws (rev ?x))" by simp
  with a b show ?thesis by blast
qed

lemma trim_ends: "trim s \<noteq> [] \<Longrightarrow> \<not> is_ws (hd (trim s)) \<and> \<not> is_ws (last (trim s))"
proof -
  assume ne: "trim s \<noteq> []"
  let ?x = "dropWhile is_ws s"
  have l: "\<not> is_ws (last (trim s))"
    using ne hd_dropWhile[of is_ws "rev ?x"] by (simp add: trim_def last_rev)
  have 2: "?x = trim s @ rev (takeWhile is_ws (rev ?x))"
    unfolding trim_def by (rule rev_split)
  with ne have "hd ?x = hd (trim s)" by (metis hd_append2)
  moreover have "?x \<noteq> []"
  proof
    assume "?x = []"
    then have "trim s = []" by (simp only: trim_def rev.simps dropWhile.simps)
    with ne show False by simp
  qed
  ultimately have "\<not> is_ws (hd (trim s))" using hd_dropWhile[of is_ws s] by simp
  with l show ?thesis by simp
qed

lemma no_ws_run_append: "no_ws_run (a @ b) \<Longrightarrow> no_ws_run a \<and> no_ws_run b"
  by (induction a rule: no_ws_run.induct) (auto simp: no_ws_run_Cons)

lemma trim_id: "(s \<noteq> [] \<longrightarrow> \<not> is_ws (hd s) \<and> \<not> is_ws (last s)) \<Longrightarrow> trim s = s"
proof (cases s)
  case Nil
  then show ?thesis by (simp add: trim_def)
next
  case (Cons c t)
  assume "s \<noteq> [] \<longrightarrow> \<not> is_ws (hd s) \<and> \<not> is_ws (last s)"
  with Cons have h: "\<not> is_ws (hd s)" "\<not> is_ws (last s)" "s \<noteq> []" by auto
  then have 1: "dropWhile is_ws s = s" by (cases s) auto
  from h have "dropWhile is_ws (rev s) = rev s" by (cases "rev s") (auto simp: last_rev hd_rev)
  with 1 show ?thesis by (simp add: trim_def)
qed

lemma canonical_cleanUp: "canonical (cleanUp s)"
proof -
  let ?q = "squeeze (nl2sp s)"
  obtain a b where d: "?q = a @ trim ?q @ b" using trim_decomp by blast
  have "list_all (\<lambda>c. is_ws c \<longrightarrow> c = 32) (a @ trim ?q @ b)"
    using squeeze_ws_space[of "nl2sp s"] d by simp
  then have 1: "list_all (\<lambda>c. is_ws c \<longrightarrow> c = 32) (trim ?q)" by simp
  have "no_ws_run (a @ trim ?q @ b)" using squeeze_no_ws_run[of "nl2sp s"] d by simp
  then have 2: "no_ws_run (trim ?q)" using no_ws_run_append by blast
  from 1 2 trim_ends[of ?q] show ?thesis
    by (simp add: canonical_def cleanUp_def collapse_squeeze)
qed

lemma cleanUp_canonical: "canonical s \<Longrightarrow> cleanUp s = s"
proof -
  assume c: "canonical s"
  then have "list_all (\<lambda>c. is_ws c \<longrightarrow> c = 32) s" by (simp add: canonical_def)
  then have "\<forall>c\<in>set s. c \<noteq> 10" by (auto simp: list_all_iff)
  then have 1: "nl2sp s = s" by (simp add: nl2sp_map map_idI)
  from c have 2: "squeeze s = s" by (simp add: canonical_def squeeze_id)
  from c have 3: "trim s = s" by (simp add: canonical_def trim_id)
  from 1 2 3 show ?thesis by (simp add: cleanUp_def collapse_squeeze)
qed

lemma cleanUp_idem: "cleanUp (cleanUp s) = cleanUp s"
  by (rule cleanUp_canonical) (rule canonical_cleanUp)


section \<open>Captures and prefixes\<close>

text \<open>
  The capturing group of the two fenced-block patterns takes part in every match, so
  the handlers never call a method on \<^verbatim>\<open>undefined\<close> there.
\<close>

lemma later_Some: "c1 \<noteq> None \<or> c2 \<noteq> None \<Longrightarrow> later c2 c1 \<noteq> None"
  by (cases c2) auto

lemma group_captures: "x \<in> set (matches ic (Group r) s) \<Longrightarrow> snd x \<noteq> None"
  by (auto simp: matches_eqs(5) grpk_def)

lemma in_seq:
  "x \<in> set (matches ic (Seq r1 r2) s) \<longleftrightarrow>
     (\<exists>s1 c1 s2 c2. (s1, c1) \<in> set (matches ic r1 s) \<and> (s2, c2) \<in> set (matches ic r2 s1)
        \<and> x = (s2, later c2 c1))"
  unfolding matches.simps(5) set_concat set_map by force

lemma seq_captures_left:
  assumes "\<And>s x. x \<in> set (matches ic r1 s) \<Longrightarrow> snd x \<noteq> None"
  shows "x \<in> set (matches ic (Seq r1 r2) s) \<Longrightarrow> snd x \<noteq> None"
proof -
  assume "x \<in> set (matches ic (Seq r1 r2) s)"
  then obtain s1 c1 s2 c2 where h: "(s1, c1) \<in> set (matches ic r1 s)" "x = (s2, later c2 c1)"
    unfolding in_seq by blast
  from assms[OF h(1)] have "c1 \<noteq> None" by simp
  with h(2) show ?thesis by (simp add: later_Some)
qed

lemma seq_captures_right:
  assumes "\<And>s x. x \<in> set (matches ic r2 s) \<Longrightarrow> snd x \<noteq> None"
  shows "x \<in> set (matches ic (Seq r1 r2) s) \<Longrightarrow> snd x \<noteq> None"
proof -
  assume "x \<in> set (matches ic (Seq r1 r2) s)"
  then obtain s1 c1 s2 c2 where h: "(s2, c2) \<in> set (matches ic r2 s1)" "x = (s2, later c2 c1)"
    unfolding in_seq by blast
  from assms[OF h(1)] have "c2 \<noteq> None" by simp
  with h(2) show ?thesis by (simp add: later_Some)
qed

lemma exec_Some:
  "exec ic r s = Some (m0, g) \<Longrightarrow> \<exists>t s1 rest. matches ic r t = (s1, g) # rest"
proof (induction s)
  case Nil
  then show ?case by (auto split: list.splits)
next
  case (Cons x xs)
  then show ?case by (cases "matches ic r (x # xs)") (auto split: list.splits)
qed

lemma codeBlock_captures: "exec True pat_codeBlock s = Some (m0, g) \<Longrightarrow> g \<noteq> None"
proof -
  assume "exec True pat_codeBlock s = Some (m0, g)"
  then obtain t s1 rest where m: "matches True pat_codeBlock t = (s1, g) # rest"
    using exec_Some by blast
  have "\<And>s x. x \<in> set (matches True pat_codeBlock s) \<Longrightarrow> snd x \<noteq> None"
    unfolding pat_codeBlock_def seqs.simps
    by (rule seq_captures_right, rule seq_captures_right, rule seq_captures_right,
        rule seq_captures_left, rule group_captures)
  from this[of "(s1, g)" t] m show ?thesis by simp
qed

lemma chatCode_captures: "exec True pat_chatCode s = Some (m0, g) \<Longrightarrow> g \<noteq> None"
proof -
  assume "exec True pat_chatCode s = Some (m0, g)"
  then obtain t s1 rest where m: "matches True pat_chatCode t = (s1, g) # rest"
    using exec_Some by blast
  have "\<And>s x. x \<in> set (matches True pat_chatCode s) \<Longrightarrow> snd x \<noteq> None"
    unfolding pat_chatCode_def seqs.simps
    by (rule seq_captures_right, rule seq_captures_right, rule seq_captures_right,
        rule seq_captures_left, rule group_captures)
  from this[of "(s1, g)" t] m show ?thesis by simp
qed

text \<open>The clean-up keeps a prefix that has no whitespace in it.\<close>

lemma startsWith_append [simp]: "startsWith (p @ r) p"
  by (simp add: startsWith_def)

lemma startsWith_iff: "startsWith s p \<longleftrightarrow> (\<exists>r. s = p @ r)"
  by (metis append_take_drop_id startsWith_append startsWith_def)








lemma wrap_starts: "startsWith (wrap e) prefix_js"
  by (simp add: wrap_def prefix_js_def str_def startsWith_def)


text \<open>The four ways through the extraction of the single-shot endpoint.\<close>

lemma extractCode_cases:
  "(startsWith reply prefix_js \<and> extractCode reply = Inr (cleanUp reply))
   \<or> (\<not> startsWith reply prefix_js \<and> startsWith (applyPatterns patterns reply) prefix_js
        \<and> extractCode reply = Inr (cleanUp (applyPatterns patterns reply)))
   \<or> (\<not> startsWith reply prefix_js \<and> \<not> startsWith (applyPatterns patterns reply) prefix_js
        \<and> exec True pat_codeBlock (applyPatterns patterns reply) = None
        \<and> extractCode reply = Inr (cleanUp (applyPatterns patterns reply)))
   \<or> (\<not> startsWith reply prefix_js \<and> \<not> startsWith (applyPatterns patterns reply) prefix_js
        \<and> (\<exists>m0 m1. exec True pat_codeBlock (applyPatterns patterns reply) = Some (m0, Some m1)
             \<and> extractCode reply = Inr (cleanUp (buildFromCodeBlock m1))))"
proof (cases "startsWith reply prefix_js")
  case True
  then show ?thesis by (simp add: extractCode_def)
next
  case False
  note nr = this
  show ?thesis
  proof (cases "startsWith (applyPatterns patterns reply) prefix_js")
    case True
    with nr show ?thesis by (simp add: extractCode_def)
  next
    case False
    note np = this
    show ?thesis
    proof (cases "exec True pat_codeBlock (applyPatterns patterns reply)")
      case None
      with nr np show ?thesis by (simp add: extractCode_def)
    next
      case (Some a)
      obtain m0 g where a: "a = (m0, g)" by (cases a)
      with Some codeBlock_captures obtain m1 where g: "g = Some m1" by blast
      with nr np Some a show ?thesis by (simp add: extractCode_def Let_def)
    qed
  qed
qed

lemma extractCode_total: "\<exists>c. extractCode reply = Inr c"
  using extractCode_cases[of reply] by blast



lemma extractChat_total: "\<exists>hasCode code. extractChat reply = Inr (hasCode, code)"
proof (cases "exec True pat_chatCode reply")
  case None
  then show ?thesis by (auto simp: extractChat_def)
next
  case (Some a)
  obtain m0 g where a: "a = (m0, g)" by (cases a)
  with Some chatCode_captures obtain m1 where "g = Some m1" by blast
  with Some a show ?thesis by (auto simp: extractChat_def)
qed

lemma extractChatWrapping_total: "\<exists>hasCode code. extractChatWrapping reply = Inr (hasCode, code)"
proof (cases "exec True pat_chatCode reply")
  case (Some a)
  obtain m0 g where a: "a = (m0, g)" by (cases a)
  with Some chatCode_captures obtain m1 where "g = Some m1" by blast
  with Some a show ?thesis by (auto simp: extractChatWrapping_def Let_def)
next
  case None
  note n = this
  show ?thesis
  proof (cases "exec True pat_codeBlock reply")
    case None
    with n show ?thesis by (auto simp: extractChatWrapping_def)
  next
    case (Some a)
    obtain m0 g where a: "a = (m0, g)" by (cases a)
    with Some codeBlock_captures obtain m1 where "g = Some m1" by blast
    with n Some a show ?thesis by (auto simp: extractChatWrapping_def Let_def)
  qed
qed

section \<open>The wrapper\<close>

lemma foldl_step_Broken: "foldl step Broken a = Broken"
  by (induction a) simp_all

lemma foldl_step_Unknown: "foldl step Unknown a = Unknown"
  by (induction a) simp_all

lemma lex_append: "lex (a @ b) = foldl step (lex a) b"
  by (simp add: lex_def)

lemma code_step_frame:
  "code_step st c = Run m' st' \<Longrightarrow> code_step (st @ k) c = Run m' (st' @ k)"
  by (auto simp: code_step_def split: if_splits list.splits)

lemma step_frame:
  "step (Run m st) c = Run m' st' \<Longrightarrow> step (Run m (st @ k)) c = Run m' (st' @ k)"
  by (cases m) (auto simp: code_step_frame split: if_splits)

lemma step_Unknown_frame: "step (Run m st) c = Unknown \<Longrightarrow> step (Run m (st @ k)) c = Unknown"
  by (cases m) (auto simp: code_step_def split: if_splits list.splits)

lemma foldl_step_frame:
  "foldl step (Run m st) a = Run m' st' \<Longrightarrow> foldl step (Run m (st @ k)) a = Run m' (st' @ k)"
proof (induction a arbitrary: m' st' rule: rev_induct)
  case Nil
  then show ?case by simp
next
  case (snoc c a)
  show ?case
  proof (cases "foldl step (Run m st) a")
    case (Run m1 st1)
    with snoc.prems have "step (Run m1 st1) c = Run m' st'" by simp
    then have "step (Run m1 (st1 @ k)) c = Run m' (st' @ k)" by (rule step_frame)
    with snoc.IH[OF Run] show ?thesis by simp
  next
    case Broken
    with snoc.prems show ?thesis by simp
  next
    case Unknown
    with snoc.prems show ?thesis by simp
  qed
qed

lemma foldl_step_Unknown_frame:
  "foldl step (Run m st) a = Unknown \<Longrightarrow> foldl step (Run m (st @ k)) a = Unknown"
proof (induction a rule: rev_induct)
  case Nil
  then show ?case by simp
next
  case (snoc c a)
  show ?case
  proof (cases "foldl step (Run m st) a")
    case (Run m1 st1)
    with snoc.prems have "step (Run m1 st1) c = Unknown" by simp
    then have "step (Run m1 (st1 @ k)) c = Unknown" by (rule step_Unknown_frame)
    with foldl_step_frame[OF Run, of k] show ?thesis by simp
  next
    case Broken
    with snoc.prems show ?thesis by simp
  next
    case Unknown
    with snoc.IH show ?thesis by simp
  qed
qed

text \<open>
  The wrapper opens two brackets before the body and closes them after it; the body is
  read with these two below its own on the stack.
\<close>

lemma lex_prefix: "lex (str ''javascript:(function(){'') = Run Code [125, 41]"
  by (simp add: lex_def str_def code_step_def)

lemma suffix_closed:
  "in_code m \<Longrightarrow> foldl step (Run m (st @ [125, 41])) (str ''})();'') =
     (if st = [] then Run Code []
      else if take 2 st = [125, 41] then Run Code (drop 2 st @ [125, 41]) else Broken)"
  by (cases st; cases "tl st")
    (auto simp: in_code_def str_def code_step_def split: list.splits)

lemma suffix_comment:
  "foldl step (Run LineC st) (str ''})();'') = Run LineC st"
  by (simp add: str_def is_line_break_def)

lemma suffix_open:
  "m \<in> {SQ, SQEsc, DQ, DQEsc, BlockC, BlockStar}
     \<Longrightarrow> \<exists>m'. foldl step (Run m st) (str ''})();'') = Run m' st \<and> m' \<in> {SQ, DQ, BlockC}"
  by (auto simp: str_def)

lemma suffix_slash: "foldl step (Run Slash st) (str ''})();'') = Unknown"
  by (simp add: str_def)

lemma lex_wrap: "lex (wrap e) = foldl step (foldl step (Run Code [125, 41]) e) (str ''})();'')"
  by (simp add: wrap_def lex_append lex_prefix)

lemma closed_wrap:
  assumes "lex e = Run m st"
  shows "closed (wrap e) = (if m = Slash then None else Some (in_code m \<and> st = []))"
proof -
  have f: "foldl step (Run Code [125, 41]) e = Run m (st @ [125, 41])"
    using foldl_step_frame[of Code "[]" e m st "[125, 41]"] assms by (simp add: lex_def)
  show ?thesis
  proof (cases "in_code m")
    case True
    then have "m \<noteq> Slash" by (auto simp: in_code_def)
    with True show ?thesis
      by (auto simp: closed_def lex_wrap f suffix_closed in_code_def)
  next
    case False
    then consider "m = Slash" | "m = LineC" | "m \<in> {SQ, SQEsc, DQ, DQEsc, BlockC, BlockStar}"
      by (cases m) (auto simp: in_code_def)
    then show ?thesis
    proof cases
      case 1
      then show ?thesis by (simp add: closed_def lex_wrap f suffix_slash)
    next
      case 2
      then show ?thesis by (simp add: closed_def lex_wrap f suffix_comment in_code_def)
    next
      case 3
      from suffix_open[OF 3, of "st @ [125, 41]"] obtain m' where
        "foldl step (Run m (st @ [125, 41])) (str ''})();'') = Run m' (st @ [125, 41])" "m' \<in> {SQ, DQ, BlockC}"
        by blast
      with 3 show ?thesis by (auto simp: closed_def lex_wrap f in_code_def)
    qed
  qed
qed

lemma closed_wrap_Unknown: "lex e = Unknown \<Longrightarrow> closed (wrap e) = None"
  using foldl_step_Unknown_frame[of Code "[]" e "[125, 41]"]
  by (simp add: lex_def closed_def wrap_def str_def foldl_step_Unknown code_step_def)

lemma no_ws_run_appendI:
  "no_ws_run a \<Longrightarrow> no_ws_run b \<Longrightarrow> a = [] \<or> b = [] \<or> \<not> is_ws (last a) \<or> \<not> is_ws (hd b)
     \<Longrightarrow> no_ws_run (a @ b)"
  by (induction a rule: no_ws_run.induct) (auto simp: no_ws_run_Cons)

lemma no_ws_no_run: "\<forall>c\<in>set p. \<not> is_ws c \<Longrightarrow> no_ws_run p"
  by (induction p rule: no_ws_run.induct) auto

lemma ws_space_append3:
  "\<forall>c\<in>set a. \<not> is_ws c \<Longrightarrow> list_all (\<lambda>c. is_ws c \<longrightarrow> c = 32) e \<Longrightarrow> \<forall>c\<in>set b. \<not> is_ws c
     \<Longrightarrow> list_all (\<lambda>c. is_ws c \<longrightarrow> c = 32) (a @ e @ b)"
  by (auto simp: list_all_iff)

lemma canonical_wrap:
  assumes "list_all (\<lambda>c. is_ws c \<longrightarrow> c = 32) e" "no_ws_run e"
  shows "canonical (wrap e)"
proof -
  let ?o = "str ''javascript:(function(){''" and ?c = "str ''})();''"
  have o: "\<forall>c\<in>set ?o. \<not> is_ws c" "?o \<noteq> []" "\<not> is_ws (last ?o)" "hd ?o = 106"
    by (simp_all add: str_def is_ws_def)
  have c: "\<forall>c\<in>set ?c. \<not> is_ws c" "?c \<noteq> []" "\<not> is_ws (hd ?c)" "last ?c = 59"
    by (simp_all add: str_def is_ws_def)
  have 1: "no_ws_run (e @ ?c)"
  proof (rule no_ws_run_appendI)
    show "no_ws_run e" by (rule assms(2))
    show "no_ws_run ?c" by (rule no_ws_no_run[OF c(1)])
    show "e = [] \<or> ?c = [] \<or> \<not> is_ws (last e) \<or> \<not> is_ws (hd ?c)" using c(3) by simp
  qed
  have 2: "no_ws_run (?o @ e @ ?c)"
  proof (rule no_ws_run_appendI)
    show "no_ws_run ?o" by (rule no_ws_no_run[OF o(1)])
    show "no_ws_run (e @ ?c)" by (rule 1)
    show "?o = [] \<or> e @ ?c = [] \<or> \<not> is_ws (last ?o) \<or> \<not> is_ws (hd (e @ ?c))"
      using o(3) by simp
  qed
  have 3: "list_all (\<lambda>c. is_ws c \<longrightarrow> c = 32) (?o @ e @ ?c)"
    by (rule ws_space_append3[OF o(1) assms(1) c(1)])
  have 4: "hd (?o @ e @ ?c) = 106" using o by simp
  have 5: "last (?o @ e @ ?c) = 59" using c by simp
  from 2 3 4 5 show ?thesis
    by (simp add: canonical_def wrap_def is_ws_def del: append_assoc)
qed


section \<open>The sentinel survives trimming\<close>

lemma str_includes_iff: "str_includes s t \<longleftrightarrow> (\<exists>a b. s = a @ t @ b)"
proof (induction s)
  case Nil
  show ?case by auto
next
  case (Cons x xs)
  show ?case
  proof
    assume "str_includes (x # xs) t"
    then consider "startsWith (x # xs) t" | "str_includes xs t" by auto
    then show "\<exists>a b. x # xs = a @ t @ b"
    proof cases
      case 1
      then obtain r where "x # xs = t @ r" unfolding startsWith_iff by blast
      then have "x # xs = [] @ t @ r" by simp
      then show ?thesis by blast
    next
      case 2
      with Cons obtain a b where "xs = a @ t @ b" by blast
      then have "x # xs = (x # a) @ t @ b" by simp
      then show ?thesis by blast
    qed
  next
    assume "\<exists>a b. x # xs = a @ t @ b"
    then obtain a b where ab: "x # xs = a @ t @ b" by blast
    show "str_includes (x # xs) t"
    proof (cases a)
      case Nil
      with ab have "startsWith (x # xs) t" by (simp add: startsWith_iff)
      then show ?thesis by simp
    next
      case (Cons y ys)
      with ab have "xs = ys @ t @ b" by simp
      with Cons.IH show ?thesis by auto
    qed
  qed
qed

lemma dropWhile_reaches: "\<not> P c \<Longrightarrow> \<exists>a'. dropWhile P (a @ c # r) = a' @ c # r"
proof (induction a)
  case Nil
  then show ?case by simp
next
  case (Cons x a)
  then obtain a' where "dropWhile P (a @ c # r) = a' @ c # r" by blast
  then show ?case by (cases "P x") (auto intro: exI[of _ "x # a"])
qed

lemma trim_keeps_infix:
  assumes "t \<noteq> []" "\<not> is_ws (hd t)" "\<not> is_ws (last t)" "s = a @ t @ b"
  shows "\<exists>a' b'. trim s = a' @ t @ b'"
proof -
  from assms(1) obtain c r where t: "t = c # r" by (cases t) auto
  with assms(2) have nc: "\<not> is_ws c" by simp
  from dropWhile_reaches[of is_ws c a "r @ b", OF nc] obtain a' where
    1: "dropWhile is_ws s = a' @ t @ b" using assms(4) t by auto
  from assms(1) obtain d q where rt: "rev t = d # q" by (cases "rev t") auto
  with assms(3) have nd: "\<not> is_ws d" by (metis hd_rev list.sel(1))
  have "rev (dropWhile is_ws s) = rev b @ d # (q @ rev a')" using 1 rt by simp
  with dropWhile_reaches[of is_ws d "rev b" "q @ rev a'", OF nd] obtain b' where
    "dropWhile is_ws (rev (dropWhile is_ws s)) = b' @ d # (q @ rev a')" by auto
  then have "trim s = a' @ rev (d # q) @ rev b'" by (simp add: trim_def)
  with rt have "trim s = a' @ t @ rev b'" by (metis rev_rev_ident)
  then show ?thesis by blast
qed

lemma sentinel_ends: "sentinel \<noteq> []" "\<not> is_ws (hd sentinel)" "\<not> is_ws (last sentinel)"
  by (simp_all add: sentinel_def str_def is_ws_def)

lemma trim_includes_sentinel: "str_includes raw sentinel \<Longrightarrow> str_includes (trim raw) sentinel"
  unfolding str_includes_iff using trim_keeps_infix[OF sentinel_ends] by blast

section \<open>The patterns of the safety check, read as searches\<close>

lemma occurs_cong: "(\<And>t. P t = Q t) \<Longrightarrow> occurs P s = occurs Q s"
  by (induction s) auto

lemma occurs_disj: "occurs (\<lambda>t. P t \<or> Q t) s = (occurs P s \<or> occurs Q s)"
  by (induction s) auto

lemma test_occurs: "test ic r s = occurs (\<lambda>t. matches ic r t \<noteq> []) s"
  unfolding test_def
  by (induction s) (auto split: list.splits)

lemma starts_ci_Nil [simp]: "starts_ci [] s"
  by (simp add: starts_ci_def)

lemma starts_ci_Cons:
  "starts_ci (c # cs) s = (case s of [] \<Rightarrow> False | d # t \<Rightarrow> canon c = canon d \<and> starts_ci cs t)"
  by (auto simp: starts_ci_def split: list.splits)

lemma matches_lits:
  "matches True (lits w) s = (if starts_ci w s then [(drop (length w) s, None)] else [])"
proof (induction w arbitrary: s)
  case Nil
  show ?case by simp
next
  case (Cons c cs)
  show ?case
  proof (cases s)
    case Nil
    then show ?thesis by (simp add: matches_eqs(1) seqk_simps starts_ci_Cons)
  next
    case (Cons d t)
    with Cons.IH[of t] show ?thesis
      by (simp add: matches_eqs(1) seqk_simps capl_simps starts_ci_Cons chr_eq_def)
  qed
qed

lemma lits_nonempty: "(matches True (lits w) s \<noteq> []) = starts_ci w s"
  by (simp add: matches_lits)

lemma matches_alts: "(matches ic (alts rs) s \<noteq> []) = list_ex (\<lambda>r. matches ic r s \<noteq> []) rs"
  by (induction rs rule: alts.induct) (auto split: list.splits)

lemma seq_nonempty:
  "(matches ic (Seq r1 r2) s \<noteq> []) = (\<exists>x\<in>set (matches ic r1 s). matches ic r2 (fst x) \<noteq> [])"
proof
  assume "matches ic (Seq r1 r2) s \<noteq> []"
  then obtain x where "x \<in> set (matches ic (Seq r1 r2) s)" by (meson last_in_set)
  then obtain s1 c1 s2 c2 where "(s1, c1) \<in> set (matches ic r1 s)" "(s2, c2) \<in> set (matches ic r2 s1)"
    unfolding in_seq by blast
  then show "\<exists>x\<in>set (matches ic r1 s). matches ic r2 (fst x) \<noteq> []" by force
next
  assume "\<exists>x\<in>set (matches ic r1 s). matches ic r2 (fst x) \<noteq> []"
  then obtain s1 c1 where 1: "(s1, c1) \<in> set (matches ic r1 s)" and "matches ic r2 s1 \<noteq> []" by force
  then obtain s2 c2 where 2: "(s2, c2) \<in> set (matches ic r2 s1)"
    by (metis last_in_set surj_pair)
  from 1 2 have "(s2, later c2 c1) \<in> set (matches ic (Seq r1 r2) s)" unfolding in_seq by blast
  then show "matches ic (Seq r1 r2) s \<noteq> []" by auto
qed

lemma star_ws_then:
  assumes "\<And>t. P t \<Longrightarrow> t \<noteq> [] \<and> \<not> is_ws (hd t)"
  shows "(\<exists>x\<in>set (matches ic (Star ws) s). P (fst x)) = P (dropWhile is_ws s)"
proof (induction s)
  case Nil
  show ?case by (simp add: matches_eqs(3) matches_ws stark_simps)
next
  case (Cons c t)
  show ?case
  proof (cases "is_ws c")
    case True
    have "\<not> P (c # t)" using assms[of "c # t"] True by auto
    with True Cons show ?thesis
      by (simp add: matches_eqs(3)[of ic ws "c # t"] matches_ws stark_simps capl_def case_prod_beta)
  next
    case False
    then show ?thesis
      by (simp add: matches_eqs(3)[of ic ws "c # t"] matches_ws stark_simps)
  qed
qed

lemma paren_nonempty: "(matches True (Seq (lits (str ''('')) Eps) t \<noteq> []) = startsWith t (str ''('')"
  by (cases t)
    (auto simp: matches_eqs(1) seqk_simps capl_simps str_def startsWith_def chr_eq_def canon_def)

lemma fetch_nonempty:
  "(matches True (seqs [lits (str ''fetch''), Star ws, lits (str ''('')]) s \<noteq> []) = fetch_call_at s"
proof -
  have p: "startsWith t (str ''('') \<Longrightarrow> t \<noteq> [] \<and> \<not> is_ws (hd t)" for t
    by (cases t) (auto simp: startsWith_def str_def is_ws_def)
  have "(matches True (Seq (Star ws) (Seq (lits (str ''('')) Eps)) t \<noteq> [])
      = startsWith (dropWhile is_ws t) (str ''('')" for t
    unfolding seq_nonempty[of True "Star ws"] paren_nonempty
    by (rule star_ws_then[OF p])
  note r = this
  have len: "length (str ''fetch'') = 5" by (simp add: str_def)
  show ?thesis
    unfolding seqs.simps seq_nonempty[of True "lits (str ''fetch'')"] matches_lits fetch_call_at_def
    by (simp add: r len)
qed

lemma network_test: "test True pat_network code = spec_network_call code"
proof -
  have "(matches True pat_network t \<noteq> []) =
      (fetch_call_at t \<or> starts_ci (str ''XMLHttpRequest'') t \<or> starts_ci (str ''$.ajax'') t)" for t
    unfolding pat_network_def matches_alts by (simp add: fetch_nonempty lits_nonempty del: seqs.simps)
  then show ?thesis
    by (simp add: test_occurs spec_network_call_def contains_ci_def occurs_disj)
qed

lemma sensitive_test: "test True pat_sensitive code = spec_sensitive_keyword code"
proof -
  have "(matches True pat_sensitive t \<noteq> []) =
      (starts_ci (str ''api'') t \<or> starts_ci (str ''auth'') t \<or> starts_ci (str ''token'') t
       \<or> starts_ci (str ''session'') t \<or> starts_ci (str ''identify'') t
       \<or> starts_ci (str ''internal'') t \<or> starts_ci (str ''private'') t)" for t
    unfolding pat_sensitive_def matches_alts by (simp add: lits_nonempty)
  then show ?thesis
    by (simp add: test_occurs spec_sensitive_keyword_def contains_ci_def occurs_disj)
qed

section \<open>Trimming and collapsing commute\<close>

lemma trim_dropEnd: "trim s = dropEnd (dropWhile is_ws s)"
  by (simp add: trim_def dropEnd_def)

lemma dropWhile_all_ws: "\<forall>x\<in>set u. is_ws x \<Longrightarrow> dropWhile is_ws u = []"
  by simp

lemma dropWhile_hd_id: "x = [] \<or> \<not> P (hd x) \<Longrightarrow> dropWhile P x = x"
  by (cases x) auto

lemma dropEnd_Nil_iff: "dropEnd x = [] \<longleftrightarrow> (\<forall>c\<in>set x. is_ws c)"
  by (simp add: dropEnd_def dropWhile_eq_Nil_conv)

lemma dropEnd_Cons: "dropEnd (c # t) = (if dropEnd t = [] \<and> is_ws c then [] else c # dropEnd t)"
proof (cases "\<forall>x\<in>set t. is_ws x")
  case True
  then have "dropEnd t = []" by (simp add: dropEnd_Nil_iff)
  with True show ?thesis by (simp add: dropEnd_def dropWhile_append)
next
  case False
  then have "dropEnd t \<noteq> []" by (simp add: dropEnd_Nil_iff)
  with False show ?thesis by (auto simp: dropEnd_def dropWhile_append)
qed

lemma dropEnd_simps [simp]: "dropEnd [] = []"
  by (simp add: dropEnd_def)

lemma dropWhile_dropEnd: "dropWhile is_ws (dropEnd t) = dropEnd (dropWhile is_ws t)"
proof (induction t)
  case Nil
  show ?case by simp
next
  case (Cons c u)
  show ?case
  proof (cases "is_ws c")
    case True
    show ?thesis
    proof (cases "dropEnd u = []")
      case e: True
      then have "\<forall>x\<in>set u. is_ws x" by (simp add: dropEnd_Nil_iff)
      with True e show ?thesis by (simp add: dropEnd_Cons dropWhile_all_ws)
    next
      case False
      with True Cons show ?thesis by (simp add: dropEnd_Cons)
    qed
  next
    case False
    then show ?thesis by (simp add: dropEnd_Cons)
  qed
qed

lemma squeeze_dropWhile: "squeeze (dropWhile is_ws s) = dropWhile is_ws (squeeze s)"
proof (cases s)
  case Nil
  then show ?thesis by simp
next
  case (Cons c t)
  show ?thesis
  proof (cases "is_ws c")
    case True
    let ?x = "squeeze (dropWhile is_ws t)"
    have "?x = [] \<or> \<not> is_ws (hd ?x)"
      using hd_squeeze_ws[of "dropWhile is_ws t"] hd_dropWhile[of is_ws t] by auto
    then have "dropWhile is_ws ?x = ?x" by (rule dropWhile_hd_id)
    with True Cons show ?thesis by (simp del: dropWhile_eq_Nil_conv)
  next
    case False
    with Cons show ?thesis by simp
  qed
qed

lemma squeeze_all_ws_iff: "(\<forall>c\<in>set (squeeze s). is_ws c) \<longleftrightarrow> (\<forall>c\<in>set s. is_ws c)"
proof (induction s rule: squeeze.induct)
  case 1
  show ?case by simp
next
  case (2 c t)
  show ?case
  proof (cases "is_ws c")
    case True
    have "(\<forall>x\<in>set (dropWhile is_ws t). is_ws x) = (\<forall>x\<in>set t. is_ws x)"
      by (metis dropWhile_eq_Nil_conv empty_iff hd_dropWhile list.set(1) list.set_sel(1))
    with True 2 show ?thesis by simp
  next
    case False
    then show ?thesis by simp
  qed
qed

lemma squeeze_dropEnd: "squeeze (dropEnd x) = dropEnd (squeeze x)"
proof (induction x rule: squeeze.induct)
  case 1
  show ?case by simp
next
  case (2 c t)
  show ?case
  proof (cases "is_ws c")
    case False
    with 2 show ?thesis by (simp add: dropEnd_Cons)
  next
    case True
    note ws = this
    show ?thesis
    proof (cases "dropEnd t = []")
      case e: True
      then have "\<forall>x\<in>set t. is_ws x" by (simp add: dropEnd_Nil_iff)
      with ws e show ?thesis by (simp add: dropEnd_Cons dropWhile_all_ws)
    next
      case False
      then have "\<not> (\<forall>x\<in>set t. is_ws x)" by (simp add: dropEnd_Nil_iff)
      then have "\<not> (\<forall>x\<in>set (dropWhile is_ws t). is_ws x)"
        by (metis dropWhile_eq_Nil_conv empty_iff hd_dropWhile list.set(1) list.set_sel(1))
      then have n: "dropEnd (squeeze (dropWhile is_ws t)) \<noteq> []"
        by (simp add: dropEnd_Nil_iff squeeze_all_ws_iff)
      from ws False have "squeeze (dropEnd (c # t)) = 32 # squeeze (dropEnd (dropWhile is_ws t))"
        by (simp add: dropEnd_Cons dropWhile_dropEnd)
      also have "\<dots> = 32 # dropEnd (squeeze (dropWhile is_ws t))"
        using 2 ws by simp
      also have "\<dots> = dropEnd (squeeze (c # t))"
        using ws n by (simp add: dropEnd_Cons)
      finally show ?thesis .
    qed
  qed
qed

lemma squeeze_trim: "squeeze (trim s) = trim (squeeze s)"
  by (simp add: trim_dropEnd squeeze_dropEnd squeeze_dropWhile)

lemma nl2sp_trim: "nl2sp (trim s) = trim (nl2sp s)"
proof -
  have "is_ws \<circ> (\<lambda>c. if c = 10 then 32 else c) = is_ws"
    by (auto simp: fun_eq_iff)
  then show ?thesis
    by (simp add: nl2sp_map trim_def dropWhile_map rev_map)
qed

lemma collapse_trimmed: "collapse (nl2sp (trim s)) = cleanUp s"
  by (simp add: cleanUp_def collapse_squeeze nl2sp_trim squeeze_trim)

section \<open>Collapsing whitespace under the lexer\<close>

text \<open>
  In every mode but the line comment a run of whitespace is read like one space, as
  long as the reading does not break. So the clean-up leaves the verdict of a text that
  is read plainly as it was. A line comment is different: the clean-up removes the line
  terminator that ends it, and the comment then runs to the end of the text.
\<close>

lemma plain_from_calm: "plain_from \<sigma> t \<Longrightarrow> calm \<sigma>"
  by (cases t) simp_all

lemma plain_from_append:
  "plain_from \<sigma> (a @ b) \<longleftrightarrow> plain_from \<sigma> a \<and> plain_from (foldl step \<sigma> a) b"
proof (induction a arbitrary: \<sigma>)
  case Nil
  show ?case using plain_from_calm[of \<sigma> b] by auto
next
  case (Cons c a)
  then show ?case by simp
qed

lemma plain_from_end: "plain_from \<sigma> t \<Longrightarrow> calm (foldl step \<sigma> t)"
  by (induction t arbitrary: \<sigma>) simp_all

lemma calm_Run: "calm \<sigma> \<Longrightarrow> \<exists>m st. \<sigma> = Run m st \<and> m \<noteq> LineC"
  by (cases \<sigma>) (simp_all add: calm_def)

lemma ws_special:
  "is_ws c \<Longrightarrow> c \<noteq> 33 \<and> c \<noteq> 34 \<and> c \<noteq> 39 \<and> c \<noteq> 42 \<and> c \<noteq> 45 \<and> c \<noteq> 47 \<and> c \<noteq> 62 \<and> c \<noteq> 92"
  by (auto simp: is_ws_def)

lemma ws_code_step: "is_ws c \<Longrightarrow> code_step st c = Run Code st"
  by (auto simp: is_ws_def code_step_def)

lemma ws_step:
  assumes "is_ws c" "m \<noteq> LineC" "calm (step (Run m st) c)"
  shows "\<exists>m'. settled m' \<and> step (Run m st) c = Run m' st \<and> step (Run m st) 32 = Run m' st"
  using assms ws_special[OF assms(1)] ws_code_step[OF assms(1), of st] ws_code_step[of 32 st]
  by (cases m) (auto simp: settled_def calm_def is_ws_def is_line_break_def split: if_splits)

lemma ws_settled:
  assumes "settled m" "\<forall>c\<in>set w. is_ws c" "plain_from (Run m st) w"
  shows "foldl step (Run m st) w = Run m st"
  using assms
proof (induction w)
  case Nil
  show ?case by simp
next
  case (Cons c w)
  then have c: "is_ws c" and p: "plain_from (step (Run m st) c) w" by simp_all
  have n: "m \<noteq> LineC" using Cons.prems(1) by (auto simp: settled_def)
  from ws_step[OF c n plain_from_calm[OF p]] obtain m' where
    m': "settled m'" "step (Run m st) c = Run m' st" by blast
  have "m' = m"
    using Cons.prems(1) m'(2) ws_special[OF c] ws_code_step[OF c, of st]
    by (auto simp: settled_def split: if_splits)
  with Cons m' p show ?case by simp
qed

lemma ws_run_step:
  assumes "is_ws c" "\<forall>x\<in>set w. is_ws x" "plain_from (Run m st) (c # w)"
  shows "foldl step (Run m st) (c # w) = step (Run m st) 32"
proof -
  from assms(3) have p: "plain_from (step (Run m st) c) w" and n: "m \<noteq> LineC"
    by (simp_all add: calm_def)
  from ws_step[OF assms(1) n plain_from_calm[OF p]] obtain m' where
    m': "settled m'" "step (Run m st) c = Run m' st" "step (Run m st) 32 = Run m' st" by blast
  with p ws_settled[OF m'(1) assms(2), of st] show ?thesis by simp
qed

lemma plain_squeeze:
  "plain_from (Run m st) t \<Longrightarrow> foldl step (Run m st) (squeeze t) = foldl step (Run m st) t"
proof (induction t arbitrary: m st rule: squeeze.induct)
  case 1
  show ?case by simp
next
  case (2 c t)
  show ?case
  proof (cases "is_ws c")
    case True
    let ?w = "takeWhile is_ws t" and ?r = "dropWhile is_ws t"
    have s: "c # t = (c # ?w) @ ?r" by simp
    have "plain_from (Run m st) ((c # ?w) @ ?r)"
      using "2.prems" by (simp only: s[symmetric])
    then have pw: "plain_from (Run m st) (c # ?w)" and pr: "plain_from (foldl step (Run m st) (c # ?w)) ?r"
      by (simp_all only: plain_from_append)
    have w: "\<forall>x\<in>set ?w. is_ws x" by (auto dest: set_takeWhileD)
    have e: "foldl step (Run m st) (c # ?w) = step (Run m st) 32"
      by (rule ws_run_step[OF True w pw])
    from calm_Run[OF plain_from_calm[OF pr]] e obtain m' st' where
      r: "step (Run m st) 32 = Run m' st'" by auto
    have "foldl step (Run m' st') (squeeze ?r) = foldl step (Run m' st') ?r"
      using "2.IH"(1)[OF True, of m' st'] pr e r by simp
    then have "foldl step (Run m st) (squeeze (c # t)) = foldl step (foldl step (Run m st) (c # ?w)) ?r"
      using True e r by simp
    also have "\<dots> = foldl step (Run m st) ((c # ?w) @ ?r)" by (simp only: foldl_append)
    finally show ?thesis by (simp only: s[symmetric])
  next
    case False
    from "2.prems" have p: "plain_from (step (Run m st) c) t" by simp
    from calm_Run[OF plain_from_calm[OF p]] obtain m' st' where r: "step (Run m st) c = Run m' st'"
      by auto
    with "2.IH"(2)[OF False, of m' st'] p False show ?thesis by simp
  qed
qed

lemma squeeze_nl2sp: "squeeze (nl2sp s) = squeeze s"
proof (induction s rule: squeeze.induct)
  case 1
  show ?case by (simp add: nl2sp_map)
next
  case (2 c t)
  have f: "is_ws \<circ> (\<lambda>c. if c = 10 then 32 else c) = is_ws"
    by (auto simp: fun_eq_iff is_ws_def)
  show ?case
  proof (cases "is_ws c")
    case True
    then have "squeeze (nl2sp (c # t)) = 32 # squeeze (nl2sp (dropWhile is_ws t))"
      by (auto simp: nl2sp_map dropWhile_map f is_ws_def)
    with True "2.IH"(1) show ?thesis by simp
  next
    case False
    then have "c \<noteq> 10" by (auto simp: is_ws_def)
    with False "2.IH"(2) show ?thesis by (simp add: nl2sp_map)
  qed
qed

lemma cleanUp_squeeze_trim: "cleanUp s = squeeze (trim s)"
  using collapse_trimmed[of s] by (simp add: collapse_squeeze squeeze_nl2sp)

lemma lex_leading_ws: "\<forall>c\<in>set a. is_ws c \<Longrightarrow> foldl step (Run Code []) (a @ x) = foldl step (Run Code []) x"
  by (induction a) (simp_all add: ws_code_step)

lemma plain_leading_ws: "\<forall>c\<in>set a. is_ws c \<Longrightarrow> plain_from (Run Code []) (a @ x) \<Longrightarrow> plain_from (Run Code []) x"
  by (induction a) (simp_all add: ws_code_step)

lemma plain_cleanUp:
  assumes "plain s"
  shows "closed (cleanUp s) = closed s \<and> \<not> in_line_comment (cleanUp s)"
proof -
  obtain a b where d: "s = a @ trim s @ b" "list_all is_ws a" "list_all is_ws b"
    using trim_decomp by blast
  have wa: "\<forall>c\<in>set a. is_ws c" and wb: "\<forall>c\<in>set b. is_ws c"
    using d(2,3) by (simp_all add: list_all_iff)
  have p0: "plain_from (Run Code []) (a @ trim s @ b)"
    using assms d(1) by (simp add: plain_def)
  have p1: "plain_from (Run Code []) (trim s @ b)"
    by (rule plain_leading_ws[OF wa p0])
  then have pt: "plain_from (Run Code []) (trim s)" and pb: "plain_from (lex (trim s)) b"
    by (simp_all add: plain_from_append lex_def)
  have lc: "lex (cleanUp s) = lex (trim s)"
    using plain_squeeze[OF pt] by (simp add: cleanUp_squeeze_trim lex_def)
  obtain m st where r: "lex (trim s) = Run m st" "m \<noteq> LineC"
    using calm_Run[OF plain_from_calm[OF pb]] by blast
  have ls: "lex s = foldl step (Run m st) b"
  proof -
    have "lex s = foldl step (Run Code []) (a @ trim s @ b)"
      using d(1) by (simp add: lex_def)
    also have "\<dots> = foldl step (Run Code []) (trim s @ b)"
      by (rule lex_leading_ws[OF wa])
    finally show ?thesis using r(1) by (simp add: lex_def)
  qed
  have "closed s = closed (cleanUp s)"
  proof (cases b)
    case Nil
    with ls lc r show ?thesis by (simp add: closed_def)
  next
    case (Cons c w)
    then have c: "is_ws c" and w: "\<forall>x\<in>set w. is_ws x" using wb by simp_all
    have pb': "plain_from (Run m st) (c # w)" using pb r(1) Cons by simp
    have e: "lex s = step (Run m st) 32"
      using ws_run_step[OF c w pb'] ls Cons by simp
    from pb' have "calm (step (Run m st) c)" by (auto dest: plain_from_calm)
    from ws_step[OF c r(2) this] obtain m' where
      m': "settled m'" "step (Run m st) 32 = Run m' st" by blast
    have "in_code m' = in_code m \<and> m \<noteq> Slash \<and> m' \<noteq> Slash \<and> m' \<noteq> LineC"
      using m' r(2) ws_code_step[of 32 st]
      by (cases m) (auto simp: settled_def in_code_def split: if_splits)
    with e m'(2) lc r show ?thesis by (simp add: closed_def)
  qed
  moreover have "\<not> in_line_comment (cleanUp s)"
    using lc r by (simp add: in_line_comment_def)
  ultimately show ?thesis by simp
qed

lemma dropEnd_append_nonws: "\<not> is_ws c \<Longrightarrow> dropEnd (a @ c # b) = a @ c # dropEnd b"
  by (auto simp: dropEnd_def dropWhile_append)

lemma dropWhile_append_nonws: "\<not> is_ws c \<Longrightarrow> dropWhile is_ws (a @ c # b) = dropWhile is_ws a @ c # b"
  by (auto simp: dropWhile_append)

lemma squeeze_append_nonws: "\<not> is_ws c \<Longrightarrow> squeeze (a @ c # b) = squeeze a @ c # squeeze b"
proof (induction a rule: squeeze.induct)
  case 1
  then show ?case by simp
next
  case (2 d t)
  then show ?case by (simp add: dropWhile_append_nonws)
qed

lemma line_comment_stays:
  "\<forall>c\<in>set t. \<not> is_line_break c \<Longrightarrow> foldl step (Run LineC st) t = Run LineC st"
  by (induction t) simp_all

lemma squeeze_no_line_break: "\<forall>c\<in>set (squeeze t). \<not> is_line_break c"
  using squeeze_ws_space[of t] by (auto simp: list_all_iff is_line_break_def is_ws_def)

lemma in_code_slash: "in_code m \<Longrightarrow> step (Run m st) 47 = Run Slash st"
  by (auto simp: in_code_def code_step_def)

lemma line_comment_cleanUp:
  assumes "plain p" "lex p = Run m st" "in_code m"
  shows "lex (cleanUp (p @ 47 # 47 # r)) = Run LineC st"
proof -
  let ?p = "dropWhile is_ws p"
  have n: "\<not> is_ws 47" by (simp add: is_ws_def)
  have t: "trim (p @ 47 # 47 # r) = ?p @ 47 # 47 # dropEnd r"
    using dropEnd_append_nonws[OF n, of "?p @ [47]" r]
    by (simp add: trim_dropEnd dropWhile_append_nonws[OF n])
  have s: "cleanUp (p @ 47 # 47 # r) = squeeze ?p @ 47 # 47 # squeeze (dropEnd r)"
    using squeeze_append_nonws[OF n, of ?p "47 # dropEnd r"] squeeze_append_nonws[OF n, of "[]" "dropEnd r"]
    by (simp add: cleanUp_squeeze_trim t)
  have w: "\<forall>c\<in>set (takeWhile is_ws p). is_ws c" by (auto dest: set_takeWhileD)
  have d: "p = takeWhile is_ws p @ ?p" by simp
  have pp: "plain_from (Run Code []) ?p"
    using plain_leading_ws[OF w, of ?p] assms(1) by (simp add: plain_def)
  have "lex (squeeze ?p) = lex ?p"
    using plain_squeeze[OF pp] by (simp add: lex_def)
  also have "\<dots> = lex p"
    using lex_leading_ws[OF w, of ?p] by (simp add: lex_def)
  finally have l: "lex (squeeze ?p) = Run m st" using assms(2) by simp
  show ?thesis
    using l in_code_slash[OF assms(3), of st] squeeze_no_line_break[of "dropEnd r"]
    by (simp add: s lex_append line_comment_stays)
qed

section \<open>The handlers on a completed call\<close>

lemmas run_clean = run_rx cleanUp_def trim_def collapse_def nl2sp_def

lemmas run_extract = run_clean toText_def test_def trigger_broad_def
  trigger_explicit_def part_000_def part_001_second_def part_002_def flagged_def pat_network_def
  pat_sensitive_def sentinel_def startsWith_def prefix_js_def extractCode_def patterns_def
  pat_iife_def pat_arrow_def pat_void_def pat_bare_def pat_quoted_def pat_codeBlock_def wrap_def
  buildFromCodeBlock_def
  single_line_def is_line_break_def

lemmas run_generate = run_extract handle_generate_def

lemmas run_earlier = handle_generate_first_def handle_generate_part_003_def
  extract_part_003_def pat_iife_greedy_def pat_rest_def

lemmas run_chat = run_clean handle_chat_def test_def trigger_broad_def trigger_explicit_def
  part_000_def part_001_second_def part_002_def extractChat_def extractChatWrapping_def
  pat_chatCode_def pat_codeBlock_def startsWith_def prefix_js_def wrap_def sentinel_def
  generateChatTitle_def titlePrompt_def roleName_def lastUserMessage_def

lemma handle_generate_ok:
  assumes "primary w = Completed True (Json False (Some raw))"
  shows "fst (handle_generate v w (Some rq)) =
     (if trim raw = sentinel \<or> str_includes (trim raw) sentinel then Generated [] True (Some refusalMessage)
      else case extractCode (trim raw) of
             Inl e \<Rightarrow> Failure 500 (str ''Failed to generate'')
           | Inr cleaned \<Rightarrow> if audited v \<and> flagged cleaned then Generated [] True (Some auditMessage)
                          else Generated cleaned False None)"
  using assms by (simp add: handle_generate_def Let_def split: sum.splits)

lemma generate_calls:
  "snd (handle_generate v w (Some rq)) =
     (if test True (trigger v) (toText (prompt rq))
      then [GoogleSearch (str ''javascript bookmarklet '' @ toText (prompt rq)),
            GenerateCompletion (searchGoogle (search w)) (prompt rq)]
      else [GenerateCompletion [] (prompt rq)])"
  by (simp add: handle_generate_def Let_def split: completion.splits payload.splits sum.splits)

lemma generate_succeeds:
  assumes "primary w = Completed True (Json False (Some raw))"
  shows "\<exists>code siteSpecific message. fst (handle_generate v w (Some rq)) = Generated code siteSpecific message"
proof -
  obtain c where "extractCode (trim raw) = Inr c" using extractCode_total by blast
  then show ?thesis using handle_generate_ok[OF assms, of v rq] by auto
qed

lemma chat_calls:
  assumes "messages rq = Some ms" "ms \<noteq> []"
  shows "\<exists>rest. snd (handle_chat v w (Some rq)) =
     (if test True (trigger v) (lastUserMessage ms)
      then [GoogleSearch (str ''javascript bookmarklet '' @ lastUserMessage ms),
            ChatCompletion (searchGoogle (search w)) (drop (length ms - 100) ms)]
      else [ChatCompletion [] (drop (length ms - 100) ms)]) @ rest"
  using assms
  by (auto simp: handle_chat_def Let_def split: completion.splits payload.splits sum.splits)

lemma not_flagged_empty: "\<not> flagged []"
  by (simp add: flagged_def test_def pat_network_def run_rx)

lemma handle_chat_ok:
  assumes "primary w = Completed True (Json False (Some raw))" "messages rq = Some ms" "ms \<noteq> []"
    "(if chatWraps v then extractChatWrapping (trim raw) else extractChat (trim raw)) = Inr (hasCode, code)"
  shows "fst (handle_chat v w (Some rq)) =
     ChatReply (trim raw) hasCode code (if generateTitle rq then Some (generateChatTitle (titling w)) else None)"
  using assms by (cases "chatWraps v") (simp_all add: handle_chat_def Let_def)

lemma str_includes_self: "str_includes s s"
  unfolding str_includes_iff by (rule exI[of _ "[]"], rule exI[of _ "[]"]) simp

lemma handle_generate_first_ok:
  assumes "primary w = Completed ok (Json err (Some raw))"
  shows "fst (handle_generate_first w (Some rq)) =
     (if str_includes (trim raw) sentinel then Generated [] True (Some refusalMessage)
      else Generated (trim raw) False None)"
  using assms str_includes_self[of sentinel] by (auto simp: handle_generate_first_def Let_def)

lemma handle_generate_part_003_ok:
  assumes "primary w = Completed ok (Json err (Some raw))"
  shows "fst (handle_generate_part_003 w (Some rq)) =
     (if str_includes (trim raw) sentinel then Generated [] True (Some refusalMessage)
      else Generated (extract_part_003 (trim raw)) False None)"
  using assms str_includes_self[of sentinel] by (auto simp: handle_generate_part_003_def Let_def)

lemma generate_part_003_calls:
  "snd (handle_generate_part_003 w (Some rq)) =
     (if test True trigger_broad (toText (prompt rq))
      then [GoogleSearch (str ''javascript bookmarklet '' @ toText (prompt rq)),
            GenerateCompletion (searchGoogle (search w)) (prompt rq)]
      else [GenerateCompletion [] (prompt rq)])"
  by (simp add: handle_generate_part_003_def Let_def split: completion.splits payload.splits)

lemma generate_search_free:
  "fst (handle_generate v (w\<lparr>search := s\<rparr>) request) = fst (handle_generate v w request)"
  by (simp add: handle_generate_def Let_def
      split: option.splits completion.splits payload.splits sum.splits)

lemma generate_part_003_search_free:
  "fst (handle_generate_part_003 (w\<lparr>search := s\<rparr>) request) = fst (handle_generate_part_003 w request)"
  by (simp add: handle_generate_part_003_def Let_def
      split: option.splits completion.splits payload.splits)

lemma chat_search_free:
  "fst (handle_chat v (w\<lparr>search := s\<rparr>) request) = fst (handle_chat v w request)"
  by (simp add: handle_chat_def Let_def
      split: option.splits completion.splits payload.splits sum.splits prod.splits)

lemma chat_succeeds:
  assumes "primary w = Completed True (Json False (Some raw))" "messages cq = Some ms" "ms \<noteq> []"
  shows "\<exists>hasCode code title. fst (handle_chat v w (Some cq)) = ChatReply (trim raw) hasCode code title"
proof -
  obtain h c where "(if chatWraps v then extractChatWrapping (trim raw) else extractChat (trim raw)) = Inr (h, c)"
    using extractChat_total[of "trim raw"] extractChatWrapping_total[of "trim raw"] by (cases "chatWraps v") auto
  from handle_chat_ok[OF assms this] show ?thesis by blast
qed


section \<open>Claims\<close>




text \<open>
  part_003 on a reply with prose around the artifact: the code returned starts at the
  prefix and keeps the line feed that follows.
\<close>

theorem part_003_keeps_line_feeds:
  "fst (handle_generate_part_003 \<lparr>search = SearchThrows, primary = Completed True (Json False (Some (str ''Sure:\<newline>javascript:alert(1)\<newline> done''))), titling = FetchThrows\<rparr>
          (Some \<lparr>prompt = Some (str ''show a box'')\<rparr>))
     = Generated (str ''javascript:alert(1)\<newline> done'') False None
   \<and> \<not> single_line (str ''javascript:alert(1)\<newline> done'')"
  by (simp add: run_extract run_earlier)

text \<open>
  Claim C2 (as amended). In the single-shot endpoint, for every handler and variant and
  every raw reply that equals or contains the sentinel, the response has
  \<^verbatim>\<open>siteSpecific\<close> true and the empty code, whatever pattern the reply also matches: the
  sentinel is looked for before any extraction.
\<close>

theorem sentinel_refuses_generate:
  assumes "primary w = Completed True (Json False (Some raw))" "str_includes raw sentinel"
  shows "fst (handle_generate v w (Some rq)) = Generated [] True (Some refusalMessage)
    \<and> fst (handle_generate_first w (Some rq)) = Generated [] True (Some refusalMessage)
    \<and> fst (handle_generate_part_003 w (Some rq)) = Generated [] True (Some refusalMessage)"
  using handle_generate_ok[OF assms(1), of v rq] handle_generate_first_ok[OF assms(1), of rq]
    handle_generate_part_003_ok[OF assms(1), of rq] trim_includes_sentinel[OF assms(2)]
  by simp

theorem sentinel_refuses_generate_witness:
  "primary \<lparr>search = SearchThrows, primary = Completed True (Json False (Some (str ''SITE_SPECIFIC_REQUEST ```js\<newline>javascript:alert(1)```''))), titling = FetchThrows\<rparr>
     = Completed True (Json False (Some (str ''SITE_SPECIFIC_REQUEST ```js\<newline>javascript:alert(1)```'')))
   \<and> str_includes (str ''SITE_SPECIFIC_REQUEST ```js\<newline>javascript:alert(1)```'') sentinel
   \<and> exec True pat_bare (str ''SITE_SPECIFIC_REQUEST ```js\<newline>javascript:alert(1)```'') = Some (str ''javascript:alert(1)'', None)
   \<and> fst (handle_generate part_002 \<lparr>search = SearchThrows, primary = Completed True (Json False (Some (str ''SITE_SPECIFIC_REQUEST ```js\<newline>javascript:alert(1)```''))), titling = FetchThrows\<rparr>
          (Some \<lparr>prompt = Some (str ''kahoot answers'')\<rparr>))
     = Generated [] True (Some refusalMessage)"
  using sentinel_refuses_generate[of "\<lparr>search = SearchThrows, primary = Completed True (Json False (Some (str ''SITE_SPECIFIC_REQUEST ```js\<newline>javascript:alert(1)```''))), titling = FetchThrows\<rparr>"
      "str ''SITE_SPECIFIC_REQUEST ```js\<newline>javascript:alert(1)```''" part_002 "\<lparr>prompt = Some (str ''kahoot answers'')\<rparr>"]
  by (simp add: run_generate)

text \<open>
  Claim C2 as stated fails for the conversational endpoint, which never looks for the
  sentinel: a reply that contains it goes through extraction, and the code in it is
  returned.
\<close>

theorem chat_ignores_sentinel:
  "str_includes (str ''SITE_SPECIFIC_REQUEST ```js\<newline>javascript:alert(1)```'') sentinel
   \<and> fst (handle_chat part_000 \<lparr>search = SearchThrows, primary = Completed True (Json False (Some (str ''SITE_SPECIFIC_REQUEST ```js\<newline>javascript:alert(1)```''))), titling = FetchThrows\<rparr>
          (Some \<lparr>messages = Some [\<lparr>role = User, content = str ''kahoot answers''\<rparr>], generateTitle = False\<rparr>))
     = ChatReply (str ''SITE_SPECIFIC_REQUEST ```js\<newline>javascript:alert(1)```'') True (str ''javascript:alert(1)'') None"
  by (simp add: run_chat)

text \<open>
  Claim C3. The safety check flags a code exactly when the code contains a
  network-call construct and contains a sensitive keyword: one of the two alone does
  not flag it.
\<close>

theorem filter_is_conjunction:
  "flagged code = (spec_network_call code \<and> spec_sensitive_keyword code)"
  by (simp add: flagged_def network_test sensitive_test)

theorem filter_is_conjunction_witness:
  "spec_network_call (str ''fetch ('/list')'') \<and> \<not> spec_sensitive_keyword (str ''fetch ('/list')'')
     \<and> \<not> flagged (str ''fetch ('/list')'')
   \<and> \<not> spec_network_call (str ''var Token = 1'') \<and> spec_sensitive_keyword (str ''var Token = 1'')
     \<and> \<not> flagged (str ''var Token = 1'')
   \<and> spec_network_call (str ''fetch('/api/session-token')'')
     \<and> spec_sensitive_keyword (str ''fetch('/api/session-token')'')
     \<and> flagged (str ''fetch('/api/session-token')'')"
  using filter_is_conjunction[of "str ''fetch ('/list')''"] filter_is_conjunction[of "str ''var Token = 1''"]
    filter_is_conjunction[of "str ''fetch('/api/session-token')''"]
  by (simp add: spec_network_call_def spec_sensitive_keyword_def contains_ci_def starts_ci_def
      fetch_call_at_def startsWith_def str_def canon_def is_ws_def)




text \<open>
  Claim C5 (as amended). When the provider returns the statement inside a fenced block
  (with no tag, or the tag \<^verbatim>\<open>js\<close> or \<^verbatim>\<open>javascript\<close>), with no prefix, then whatever the variant,
  the search and the request, the four handlers with the fenced-block step wrap it,
  and the code returned is exactly \<^verbatim>\<open>javascript:(function(){alert('hi')})();\<close>
  The two earlier handlers return the fenced text as it is.
\<close>

theorem fenced_statement_wrapped:
  assumes "primary w = Completed True (Json False (Some raw))"
    and "trim raw = str ''```\<newline>alert('hi')\<newline>```''
       \<or> trim raw = str ''```js\<newline>alert('hi')\<newline>```''
       \<or> trim raw = str ''```javascript\<newline>alert('hi')\<newline>```''"
  shows "fst (handle_generate v w (Some rq)) = Generated (str ''javascript:(function(){alert('hi')})();'') False None
    \<and> fst (handle_generate_first w (Some rq)) = Generated (trim raw) False None
    \<and> fst (handle_generate_part_003 w (Some rq)) = Generated (trim raw) False None"
proof -
  have a: "\<not> str_includes (str ''```\<newline>alert('hi')\<newline>```'') sentinel
      \<and> str ''```\<newline>alert('hi')\<newline>```'' \<noteq> sentinel
      \<and> extractCode (str ''```\<newline>alert('hi')\<newline>```'') = Inr (str ''javascript:(function(){alert('hi')})();'')
      \<and> extract_part_003 (str ''```\<newline>alert('hi')\<newline>```'') = str ''```\<newline>alert('hi')\<newline>```''"
    by (simp add: run_extract run_earlier)
  have b: "\<not> str_includes (str ''```js\<newline>alert('hi')\<newline>```'') sentinel
      \<and> str ''```js\<newline>alert('hi')\<newline>```'' \<noteq> sentinel
      \<and> extractCode (str ''```js\<newline>alert('hi')\<newline>```'') = Inr (str ''javascript:(function(){alert('hi')})();'')
      \<and> extract_part_003 (str ''```js\<newline>alert('hi')\<newline>```'') = str ''```js\<newline>alert('hi')\<newline>```''"
    by (simp add: run_extract run_earlier)
  have c: "\<not> str_includes (str ''```javascript\<newline>alert('hi')\<newline>```'') sentinel
      \<and> str ''```javascript\<newline>alert('hi')\<newline>```'' \<noteq> sentinel
      \<and> extractCode (str ''```javascript\<newline>alert('hi')\<newline>```'') = Inr (str ''javascript:(function(){alert('hi')})();'')
      \<and> extract_part_003 (str ''```javascript\<newline>alert('hi')\<newline>```'') = str ''```javascript\<newline>alert('hi')\<newline>```''"
    by (simp add: run_extract run_earlier)
  have f: "\<not> flagged (str ''javascript:(function(){alert('hi')})();'')"
    by (simp add: run_extract)
  show ?thesis
    using assms(2) a b c f handle_generate_ok[OF assms(1), of v rq]
      handle_generate_first_ok[OF assms(1), of rq] handle_generate_part_003_ok[OF assms(1), of rq]
    by auto
qed

theorem fenced_statement_wrapped_witness:
  "primary \<lparr>search = SearchThrows, primary = Completed True (Json False (Some (str '' ```js\<newline>alert('hi')\<newline>```\<newline>''))), titling = FetchThrows\<rparr>
     = Completed True (Json False (Some (str '' ```js\<newline>alert('hi')\<newline>```\<newline>'')))
   \<and> trim (str '' ```js\<newline>alert('hi')\<newline>```\<newline>'') = str ''```js\<newline>alert('hi')\<newline>```''
   \<and> fst (handle_generate part_001_second \<lparr>search = SearchThrows, primary = Completed True (Json False (Some (str '' ```js\<newline>alert('hi')\<newline>```\<newline>''))), titling = FetchThrows\<rparr>
          (Some \<lparr>prompt = Some (str ''say hi'')\<rparr>))
     = Generated (str ''javascript:(function(){alert('hi')})();'') False None
   \<and> fst (handle_generate_first \<lparr>search = SearchThrows, primary = Completed True (Json False (Some (str '' ```js\<newline>alert('hi')\<newline>```\<newline>''))), titling = FetchThrows\<rparr>
          (Some \<lparr>prompt = Some (str ''say hi'')\<rparr>))
     = Generated (str ''```js\<newline>alert('hi')\<newline>```'') False None"
  using fenced_statement_wrapped[of "\<lparr>search = SearchThrows, primary = Completed True (Json False (Some (str '' ```js\<newline>alert('hi')\<newline>```\<newline>''))), titling = FetchThrows\<rparr>"
      "str '' ```js\<newline>alert('hi')\<newline>```\<newline>''" part_001_second "\<lparr>prompt = Some (str ''say hi'')\<rparr>"]
  by (simp add: run_generate run_earlier)

text \<open>
  Claim C5 as stated fails: the bare statement, with no fence, is returned as it is.
  (The \<^verbatim>\<open>/generate\<close> of the first file of part_001 is that of part_000.)
\<close>

theorem bare_statement_not_wrapped:
  "fst (handle_generate part_000 \<lparr>search = SearchThrows, primary = Completed True (Json False (Some (str ''alert('hi')''))), titling = FetchThrows\<rparr>
          (Some \<lparr>prompt = Some (str ''say hi'')\<rparr>))
     = Generated (str ''alert('hi')'') False None
   \<and> str ''alert('hi')'' \<noteq> str ''javascript:(function(){alert('hi')})();''"
  by (simp add: run_generate)

text \<open>
  Claim C6. The conversational endpoint answers a missing or empty message list with
  status 400 and makes no network call. The single-shot endpoint has no such test: with
  the prompt absent it still calls the completion provider, and never answers 400.
\<close>

theorem missing_field_handling:
  "handle_chat v w (Some \<lparr>messages = None, generateTitle = t\<rparr>) = (Failure 400 (str ''No messages provided''), [])
   \<and> handle_chat v w (Some \<lparr>messages = Some [], generateTitle = t\<rparr>) = (Failure 400 (str ''No messages provided''), [])
   \<and> (\<exists>ctx. last (snd (handle_generate v w (Some \<lparr>prompt = None\<rparr>))) = GenerateCompletion ctx None)
   \<and> (\<forall>e. fst (handle_generate v w (Some \<lparr>prompt = None\<rparr>)) \<noteq> Failure 400 e)"
proof -
  have "\<forall>e. fst (handle_generate v w (Some \<lparr>prompt = None\<rparr>)) \<noteq> Failure 400 e"
    by (simp add: handle_generate_def Let_def split: completion.splits payload.splits sum.splits)
  then show ?thesis
    by (simp add: handle_chat_def generate_calls)
qed

text \<open>
  The single-shot endpoint at a request without a prompt, when the provider rejects
  the call: the provider was called, and the caller sees status 500.
\<close>

theorem missing_prompt_reaches_provider:
  "handle_generate part_000 \<lparr>search = SearchThrows, primary = Completed False (Json True None), titling = FetchThrows\<rparr>
        (Some \<lparr>prompt = None\<rparr>)
     = (Failure 500 (str ''API Error''), [GenerateCompletion [] None])"
  by (simp add: run_generate)

text \<open>
  Claim C7. A search that fails in transport or parsing gives the fixed fallback text,
  an empty result gives the fixed no-results text, and the two differ. Whatever the
  search provider answers, the handlers that search (both endpoints of the variants,
  and part_003) go on to the completion call with the text of the augmenter in the
  prompt; a completion that succeeds gives a generated result, or a chat reply; and
  the response is the same for every answer of the search provider, so that no failure
  of the search reaches the caller.
\<close>

theorem search_failure_absorbed:
  "searchGoogle SearchThrows = str ''Search failed - proceeding without web context.''
   \<and> searchGoogle (SearchJson None) = str ''No relevant search results found.''
   \<and> searchGoogle (SearchJson (Some [])) = str ''No relevant search results found.''
   \<and> searchGoogle SearchThrows \<noteq> searchGoogle (SearchJson (Some []))
   \<and> (test True (trigger v) (toText (prompt rq)) \<longrightarrow>
        snd (handle_generate v w (Some rq)) =
          [GoogleSearch (str ''javascript bookmarklet '' @ toText (prompt rq)),
           GenerateCompletion (searchGoogle (search w)) (prompt rq)])
   \<and> (primary w = Completed True (Json False (Some raw)) \<longrightarrow>
        (\<exists>code siteSpecific message.
           fst (handle_generate v w (Some rq)) = Generated code siteSpecific message))
   \<and> (messages cq = Some ms \<and> ms \<noteq> [] \<and> test True (trigger v) (lastUserMessage ms) \<longrightarrow>
        (\<exists>rest. snd (handle_chat v w (Some cq)) =
           [GoogleSearch (str ''javascript bookmarklet '' @ lastUserMessage ms),
            ChatCompletion (searchGoogle (search w)) (drop (length ms - 100) ms)] @ rest))
   \<and> (primary w = Completed True (Json False (Some raw)) \<and> messages cq = Some ms \<and> ms \<noteq> [] \<longrightarrow>
        (\<exists>hasCode code title.
           fst (handle_chat v w (Some cq)) = ChatReply (trim raw) hasCode code title))
   \<and> (test True trigger_broad (toText (prompt rq)) \<longrightarrow>
        snd (handle_generate_part_003 w (Some rq)) =
          [GoogleSearch (str ''javascript bookmarklet '' @ toText (prompt rq)),
           GenerateCompletion (searchGoogle (search w)) (prompt rq)])
   \<and> (primary w = Completed True (Json False (Some raw)) \<longrightarrow>
        (\<exists>code siteSpecific message.
           fst (handle_generate_part_003 w (Some rq)) = Generated code siteSpecific message))
   \<and> fst (handle_generate v (w\<lparr>search := s\<rparr>) request) = fst (handle_generate v w request)
   \<and> fst (handle_chat v (w\<lparr>search := s\<rparr>) crequest) = fst (handle_chat v w crequest)
   \<and> fst (handle_generate_part_003 (w\<lparr>search := s\<rparr>) request) = fst (handle_generate_part_003 w request)"
proof -
  have 1: "searchGoogle SearchThrows \<noteq> searchGoogle (SearchJson (Some []))"
    by (simp add: searchGoogle_def str_def)
  have 2: "messages cq = Some ms \<and> ms \<noteq> [] \<and> test True (trigger v) (lastUserMessage ms) \<longrightarrow>
        (\<exists>rest. snd (handle_chat v w (Some cq)) =
           [GoogleSearch (str ''javascript bookmarklet '' @ lastUserMessage ms),
            ChatCompletion (searchGoogle (search w)) (drop (length ms - 100) ms)] @ rest)"
    using chat_calls[of cq ms v w] by auto
  have 3: "searchGoogle SearchThrows = str ''Search failed - proceeding without web context.''"
    "searchGoogle (SearchJson None) = str ''No relevant search results found.''"
    "searchGoogle (SearchJson (Some [])) = str ''No relevant search results found.''"
    by (simp_all add: searchGoogle_def)
  have 4: "primary w = Completed True (Json False (Some raw)) \<and> messages cq = Some ms \<and> ms \<noteq> [] \<longrightarrow>
        (\<exists>hasCode code title.
           fst (handle_chat v w (Some cq)) = ChatReply (trim raw) hasCode code title)"
    using chat_succeeds[of w raw cq ms v] by blast
  have 5: "primary w = Completed True (Json False (Some raw)) \<longrightarrow>
        (\<exists>code siteSpecific message.
           fst (handle_generate_part_003 w (Some rq)) = Generated code siteSpecific message)"
    using handle_generate_part_003_ok[of w True False raw rq] by auto
  have 6: "primary w = Completed True (Json False (Some raw)) \<longrightarrow>
        (\<exists>code siteSpecific message.
           fst (handle_generate v w (Some rq)) = Generated code siteSpecific message)"
    using generate_succeeds[of w raw v rq] by blast
  show ?thesis
    by (intro conjI 1 2 3 4 5 6 generate_search_free chat_search_free generate_part_003_search_free)
      (simp_all add: generate_calls generate_part_003_calls)
qed

theorem search_failure_absorbed_witness:
  "test True (trigger part_002) (toText (prompt \<lparr>prompt = Some (str ''look up the fetch docs'')\<rparr>))
   \<and> test True trigger_broad (toText (prompt \<lparr>prompt = Some (str ''look up the fetch docs'')\<rparr>))
   \<and> primary \<lparr>search = SearchThrows, primary = Completed True (Json False (Some (str ''javascript:alert(1)''))), titling = FetchThrows\<rparr>
       = Completed True (Json False (Some (str ''javascript:alert(1)'')))
   \<and> messages \<lparr>messages = Some [\<lparr>role = User, content = str ''look up the fetch docs''\<rparr>], generateTitle = False\<rparr>
       = Some [\<lparr>role = User, content = str ''look up the fetch docs''\<rparr>]
   \<and> [\<lparr>role = User, content = str ''look up the fetch docs''\<rparr>] \<noteq> []
   \<and> test True (trigger part_002) (lastUserMessage [\<lparr>role = User, content = str ''look up the fetch docs''\<rparr>])
   \<and> handle_generate part_002 \<lparr>search = SearchThrows, primary = Completed True (Json False (Some (str ''javascript:alert(1)''))), titling = FetchThrows\<rparr>
        (Some \<lparr>prompt = Some (str ''look up the fetch docs'')\<rparr>)
     = (Generated (str ''javascript:alert(1)'') False None,
        [GoogleSearch (str ''javascript bookmarklet look up the fetch docs''),
         GenerateCompletion (str ''Search failed - proceeding without web context.'') (Some (str ''look up the fetch docs''))])
   \<and> handle_generate_part_003 \<lparr>search = SearchThrows, primary = Completed True (Json False (Some (str ''javascript:alert(1)''))), titling = FetchThrows\<rparr>
        (Some \<lparr>prompt = Some (str ''look up the fetch docs'')\<rparr>)
     = (Generated (str ''javascript:alert(1)'') False None,
        [GoogleSearch (str ''javascript bookmarklet look up the fetch docs''),
         GenerateCompletion (str ''Search failed - proceeding without web context.'') (Some (str ''look up the fetch docs''))])
   \<and> handle_chat part_002 \<lparr>search = SearchThrows, primary = Completed True (Json False (Some (str ''javascript:alert(1)''))), titling = FetchThrows\<rparr>
        (Some \<lparr>messages = Some [\<lparr>role = User, content = str ''look up the fetch docs''\<rparr>], generateTitle = False\<rparr>)
     = (ChatReply (str ''javascript:alert(1)'') False [] None,
        [GoogleSearch (str ''javascript bookmarklet look up the fetch docs''),
         ChatCompletion (str ''Search failed - proceeding without web context.'') [\<lparr>role = User, content = str ''look up the fetch docs''\<rparr>]])"
  using search_failure_absorbed[of part_002 "\<lparr>prompt = Some (str ''look up the fetch docs'')\<rparr>"
     "\<lparr>search = SearchThrows, primary = Completed True (Json False (Some (str ''javascript:alert(1)''))), titling = FetchThrows\<rparr>"
     "str ''javascript:alert(1)''"
     "\<lparr>messages = Some [\<lparr>role = User, content = str ''look up the fetch docs''\<rparr>], generateTitle = False\<rparr>"
     "[\<lparr>role = User, content = str ''look up the fetch docs''\<rparr>]"
     "SearchJson None" "Some \<lparr>prompt = Some (str ''look up the fetch docs'')\<rparr>"
     "Some \<lparr>messages = Some [\<lparr>role = User, content = str ''look up the fetch docs''\<rparr>], generateTitle = False\<rparr>"]
  by (simp add: run_generate run_earlier handle_chat_def extractChat_def extractChatWrapping_def
      pat_chatCode_def lastUserMessage_def searchGoogle_def)

text \<open>
  Claim C8. The clean-up step (every line feed replaced by a space, every run of
  whitespace collapsed to one space, the ends trimmed) is idempotent: cleaning a
  cleaned text changes nothing. The texts it leaves unchanged are exactly the
  canonical ones.
\<close>

theorem cleanUp_idempotent:
  "cleanUp (cleanUp s) = cleanUp s \<and> (canonical s \<longleftrightarrow> cleanUp s = s)"
proof -
  have "cleanUp s = s \<Longrightarrow> canonical s"
    using canonical_cleanUp[of s] by simp
  then show ?thesis
    using cleanUp_idem cleanUp_canonical by blast
qed

theorem cleanUp_idempotent_witness:
  "cleanUp (str '' a \<newline>\<newline>  b '') = str ''a b'' \<and> cleanUp (str ''a b'') = str ''a b''
     \<and> canonical (str ''a b'')"
  using cleanUp_idempotent[of "str '' a \<newline>\<newline>  b ''"] cleanUp_idempotent[of "str ''a b''"]
  by (simp add: run_clean)

text \<open>
  Claim C9. When the content of a fenced block does not start with the prefix, the
  code built from it (a) starts with the prefix, (b) is the wrapper around the
  cleaned-up content, which it therefore contains, and around the content itself when
  that is already canonical. (c) It is closed when the content is closed and is read
  without a line comment. When the content holds a line comment, the code is not
  closed: the clean-up has removed the line terminator that ended the comment, and the
  closing brackets of the wrapper are read as part of it.
\<close>

theorem wrapping_step:
  assumes "\<not> startsWith (trim m1) prefix_js"
  shows "startsWith (cleanUp (buildFromCodeBlock m1)) prefix_js
    \<and> cleanUp (buildFromCodeBlock m1) = wrap (cleanUp m1)
    \<and> str_includes (cleanUp (buildFromCodeBlock m1)) (cleanUp m1)
    \<and> (canonical m1 \<longrightarrow> cleanUp (buildFromCodeBlock m1) = wrap m1)
    \<and> (plain m1 \<and> closed m1 = Some True \<longrightarrow> closed (cleanUp (buildFromCodeBlock m1)) = Some True)
    \<and> (m1 = p @ 47 # 47 # r \<and> plain p \<and> lex p = Run m st \<and> in_code m
          \<longrightarrow> closed (cleanUp (buildFromCodeBlock m1)) = Some False)
    \<and> (in_line_comment (cleanUp m1) \<longrightarrow> closed (cleanUp (buildFromCodeBlock m1)) = Some False)"
proof -
  have b: "buildFromCodeBlock m1 = wrap (cleanUp m1)"
    using assms by (simp add: buildFromCodeBlock_def Let_def collapse_trimmed)
  have "canonical (wrap (cleanUp m1))"
    using canonical_cleanUp[of m1] by (intro canonical_wrap) (simp_all add: canonical_def)
  then have c: "cleanUp (buildFromCodeBlock m1) = wrap (cleanUp m1)"
    using b by (simp add: cleanUp_canonical)
  have i: "str_includes (wrap (cleanUp m1)) (cleanUp m1)"
    unfolding str_includes_iff wrap_def by blast
  have pos: "closed (wrap (cleanUp m1)) = Some True" if "plain m1" "closed m1 = Some True"
  proof -
    from plain_cleanUp[OF that(1)] that(2)
    have k: "closed (cleanUp m1) = Some True" "\<not> in_line_comment (cleanUp m1)" by simp_all
    then obtain m' st' where l: "lex (cleanUp m1) = Run m' st'"
      by (cases "lex (cleanUp m1)") (simp_all add: closed_def)
    with k have "m' \<noteq> Slash \<and> in_code m' \<and> st' = []"
      by (auto simp: closed_def in_line_comment_def split: if_splits)
    with closed_wrap[OF l] show ?thesis by simp
  qed
  have com: "closed (wrap e) = Some False" if "in_line_comment e" for e
  proof -
    from that obtain st' where "lex e = Run LineC st'"
      by (cases "lex e") (simp_all add: in_line_comment_def)
    from closed_wrap[OF this] show ?thesis by (simp add: in_code_def)
  qed
  have neg: "closed (wrap (cleanUp m1)) = Some False"
    if "m1 = p @ 47 # 47 # r" "plain p" "lex p = Run m st" "in_code m"
    using line_comment_cleanUp[OF that(2,3,4), of r] that(1) com[of "cleanUp m1"]
    by (simp add: in_line_comment_def)
  from c i wrap_starts cleanUp_canonical pos neg com show ?thesis by auto
qed

theorem wrapping_step_witness:
  "\<not> startsWith (trim (str ''alert(1);\<newline>  alert(2)\<newline>'')) prefix_js
   \<and> plain (str ''alert(1);\<newline>  alert(2)\<newline>'')
   \<and> closed (str ''alert(1);\<newline>  alert(2)\<newline>'') = Some True
   \<and> cleanUp (buildFromCodeBlock (str ''alert(1);\<newline>  alert(2)\<newline>''))
       = str ''javascript:(function(){alert(1); alert(2)})();''
   \<and> closed (str ''javascript:(function(){alert(1); alert(2)})();'') = Some True
   \<and> \<not> startsWith (trim (str ''foo(a, // first\<newline> b);'')) prefix_js
   \<and> str ''foo(a, // first\<newline> b);'' = str ''foo(a, '' @ 47 # 47 # str '' first\<newline> b);''
   \<and> plain (str ''foo(a, '')
   \<and> lex (str ''foo(a, '') = Run Code [41]
   \<and> in_code Code
   \<and> closed (str ''foo(a, // first\<newline> b);'') = Some True
   \<and> cleanUp (buildFromCodeBlock (str ''foo(a, // first\<newline> b);''))
       = str ''javascript:(function(){foo(a, // first b);})();''
   \<and> closed (str ''javascript:(function(){foo(a, // first b);})();'') = Some False"
  using wrapping_step[of "str ''alert(1);\<newline>  alert(2)\<newline>''" "[]" "[]" Code "[]"]
    wrapping_step[of "str ''foo(a, // first\<newline> b);''" "str ''foo(a, ''" "str '' first\<newline> b);''" Code "[41]"]
  by (simp add: run_extract plain_def lex_def closed_def calm_def in_code_def code_step_def)

text \<open>
  The single-shot endpoint on a fenced statement with a line comment after its first
  argument. The statement is closed; the code returned is not: its reading ends inside
  the comment, with the bracket of the call and the two of the wrapper still open.
\<close>

theorem line_comment_swallows_wrapper:
  "fst (handle_generate part_000 \<lparr>search = SearchThrows, primary = Completed True (Json False (Some (str ''```\<newline>foo(a, // first\<newline> b);\<newline>```''))), titling = FetchThrows\<rparr>
          (Some \<lparr>prompt = Some (str ''call foo'')\<rparr>))
     = Generated (str ''javascript:(function(){foo(a, // first b);})();'') False None
   \<and> exec True pat_codeBlock (str ''```\<newline>foo(a, // first\<newline> b);\<newline>```'')
     = Some (str ''```\<newline>foo(a, // first\<newline> b);\<newline>```'', Some (str ''foo(a, // first\<newline> b);\<newline>''))
   \<and> closed (str ''foo(a, // first\<newline> b);\<newline>'') = Some True
   \<and> lex (str ''javascript:(function(){foo(a, // first b);})();'') = Run LineC [41, 125, 41]
   \<and> closed (str ''javascript:(function(){foo(a, // first b);})();'') = Some False"
  by (simp add: run_generate lex_def closed_def in_code_def code_step_def)

text \<open>
  Claim C10. In a variant with the safety check, a code returned by the single-shot
  endpoint is never flagged by the check. The conversational endpoint returns whatever
  its extraction gives, flagged or not.
\<close>

theorem chat_code_not_audited:
  "(audited v \<longrightarrow>
      (\<forall>code siteSpecific message.
         fst (handle_generate v w request) = Generated code siteSpecific message \<longrightarrow> \<not> flagged code))
   \<and> (primary w = Completed True (Json False (Some raw)) \<and> messages rq = Some ms \<and> ms \<noteq> []
        \<and> (if chatWraps v then extractChatWrapping (trim raw) else extractChat (trim raw)) = Inr (hasCode, code)
      \<longrightarrow> (\<exists>t. fst (handle_chat v w (Some rq)) = ChatReply (trim raw) hasCode code t))"
proof (intro conjI impI allI)
  fix c ss m
  assume a: "audited v" and g: "fst (handle_generate v w request) = Generated c ss m"
  show "\<not> flagged c"
  proof (cases ss)
    case True
    with g have "c = []"
      by (auto simp: handle_generate_def Let_def
          split: option.splits completion.splits payload.splits sum.splits if_splits)
    then show ?thesis by (simp add: not_flagged_empty)
  next
    case False
    with g a show ?thesis
      by (auto simp: handle_generate_def Let_def
          split: option.splits completion.splits payload.splits sum.splits if_splits)
  qed
next
  assume "primary w = Completed True (Json False (Some raw)) \<and> messages rq = Some ms \<and> ms \<noteq> []
        \<and> (if chatWraps v then extractChatWrapping (trim raw) else extractChat (trim raw)) = Inr (hasCode, code)"
  then show "\<exists>t. fst (handle_chat v w (Some rq)) = ChatReply (trim raw) hasCode code t"
    using handle_chat_ok[of w raw rq ms v hasCode code] by blast
qed

theorem chat_code_not_audited_witness:
  "audited part_002
   \<and> flagged (str ''javascript:fetch('/api/session-token')'')
   \<and> fst (handle_chat part_002 \<lparr>search = SearchThrows, primary = Completed True (Json False (Some (str ''```javascript\<newline>javascript:fetch('/api/session-token')\<newline>```''))), titling = FetchThrows\<rparr>
          (Some \<lparr>messages = Some [\<lparr>role = User, content = str ''get my token''\<rparr>], generateTitle = False\<rparr>))
     = ChatReply (str ''```javascript\<newline>javascript:fetch('/api/session-token')\<newline>```'') True (str ''javascript:fetch('/api/session-token')'') None
   \<and> fst (handle_generate part_002 \<lparr>search = SearchThrows, primary = Completed True (Json False (Some (str ''javascript:fetch('/api/session-token')''))), titling = FetchThrows\<rparr>
          (Some \<lparr>prompt = Some (str ''get my token'')\<rparr>))
     = Generated [] True (Some auditMessage)"
  using chat_code_not_audited[of part_002
      "\<lparr>search = SearchThrows, primary = Completed True (Json False (Some (str ''```javascript\<newline>javascript:fetch('/api/session-token')\<newline>```''))), titling = FetchThrows\<rparr>"
      "Some \<lparr>prompt = Some (str ''get my token'')\<rparr>"
      "str ''```javascript\<newline>javascript:fetch('/api/session-token')\<newline>```''"
      "\<lparr>messages = Some [\<lparr>role = User, content = str ''get my token''\<rparr>], generateTitle = False\<rparr>"
      "[\<lparr>role = User, content = str ''get my token''\<rparr>]"
      True "str ''javascript:fetch('/api/session-token')''"]
  by (simp add: run_generate handle_chat_def extractChat_def extractChatWrapping_def
      pat_chatCode_def lastUserMessage_def)

end
